theory Spec2Isabelle
  imports Main
begin

section \<open>Data model\<close>

text \<open>
  The payload a handler hands to \<open>respond\<close>: an optional status, an optional body
  and a list of headers, as in \<open>respond({ body, headers })\<close> and
  \<open>respond({ status: 404 })\<close>.
\<close>

record response =
  status :: "nat option"
  body :: "string option"
  headers :: "(string \<times> string) list"

text \<open>
  What a handler body does, in order.  \<open>Call\<close> is \<open>next()\<close>, a call of the handler's
  continuation that is not awaited (the type of \<open>next\<close> in \<open>Handler\<close> is \<open>() => void\<close>);
  \<open>Advance\<close> is \<open>await next()\<close>; \<open>Respond r\<close> is a call of \<open>event.respond\<close>;
  \<open>Log\<close> is any effect outside the chain.  The time a handler spends awaiting anything but
  its continuation is not modelled.

  Modelled from the spec: \<open>event/event.ts\<close> is not among the sources.  A RequestEvent
  has "a \<open>respond(payload)\<close> capability accepting a body/headers/status configuration",
  so \<open>Respond r\<close> hands \<open>r\<close> to the callback that \<open>#run\<close> was given.
\<close>

datatype action = Call | Advance | Respond response | Log string

text \<open>
  Modelled from the spec: \<open>event/event.ts\<close> is not among the sources.  These are the
  fields of a RequestEvent that \<open>middleware.ts\<close> reads and writes: the "target URL",
  the "method" (\<open>e_method\<close> is the field \<open>event.method\<close>) and the "mutable
  resolved-route string".
\<close>

record event =
  href :: string
  e_method :: string
  route :: string

text \<open>
  A guarded handler is the closure built by \<open>Middleware(method, route, handler)\<close>:
  the two captured strings and the inner handler.  The inner handler reads the event
  and performs a sequence of actions.
\<close>

record guarded =
  g_method :: string
  g_route :: string
  g_handler :: "event \<Rightarrow> action list"

text \<open>
  What one run of \<open>#run\<close> shares between its functions: the event, the set \<open>used\<close>, the
  \<open>responded\<close> flag and the responses given to \<open>respondWith\<close> of \<open>listen\<close>, and two logs
  that the source does not keep: the positions whose guarded handler was called
  (\<open>tested\<close>) and the positions whose inner handler was executed (\<open>invoked\<close>), one entry
  for every call.
\<close>

record run_state =
  ev :: event
  used :: "int set"
  responded :: bool
  transmitted :: "response list"
  tested :: "int list"
  invoked :: "int list"

text \<open>
  The value returned by \<open>next(index)\<close>: either \<open>() => undefined\<close> or the async
  closure that captured \<open>index\<close>.
\<close>

datatype continuation = Noop | Step int

section \<open>Async functions\<close>

text \<open>
  \<open>middleware.ts\<close> has three kinds of async function: the closure returned by \<open>next\<close>,
  the guarded handler, and the inner handler.  A call of an async function runs its body
  up to the first \<open>await\<close> and returns a promise; the promise is resolved when the body
  returns.  \<open>await p\<close> suspends the function: when \<open>p\<close> is not a promise or is already
  resolved, the rest of the body is queued as a job at once, otherwise it is queued when
  \<open>p\<close> is resolved.  Jobs run one at a time, in the order in which they were queued.  A
  handler that is not async and returns nothing is awaited by the guarded handler in the
  same way as an async one that returns without awaiting.

  A frame is a suspended function with the promise it will resolve: \<open>Closure index p\<close> is
  the closure of \<open>next(index)\<close> at \<open>await handlers[index + 1](...)\<close>, \<open>Wrapper p\<close> the
  guarded handler at \<open>await handler(event, next)\<close>, \<open>Handler k as p\<close> an inner handler at
  \<open>await next()\<close> with the continuation \<open>k\<close> and the rest \<open>as\<close> of its body.
\<close>

datatype frame =
    Closure int nat
  | Wrapper nat
  | Handler continuation "action list" nat

datatype pstate = Resolved | Pending "frame list"

text \<open>
  The promises made so far, each resolved or pending with the frames that await it, and
  the queue of jobs.
\<close>

record machine =
  st :: run_state
  promises :: "pstate list"
  queue :: "frame list"

definition alloc :: "machine \<Rightarrow> machine" where
  "alloc m = m\<lparr>promises := promises m @ [Pending []]\<rparr>"

definition enqueue :: "frame \<Rightarrow> machine \<Rightarrow> machine" where
  "enqueue f m = m\<lparr>queue := queue m @ [f]\<rparr>"

text \<open>\<open>await p\<close> in the function that becomes the frame \<open>f\<close>; \<open>None\<close> is a value that is no promise.\<close>

definition await :: "nat option \<Rightarrow> frame \<Rightarrow> machine \<Rightarrow> machine" where
  "await p f m =
     (case p of
        None \<Rightarrow> enqueue f m
      | Some q \<Rightarrow>
          (if q < length (promises m)
           then (case promises m ! q of
                   Resolved \<Rightarrow> enqueue f m
                 | Pending fs \<Rightarrow> m\<lparr>promises := (promises m)[q := Pending (fs @ [f])]\<rparr>)
           else enqueue f m))"

definition resolve :: "nat \<Rightarrow> machine \<Rightarrow> machine" where
  "resolve p m =
     (if p < length (promises m)
      then (case promises m ! p of
              Resolved \<Rightarrow> m
            | Pending fs \<Rightarrow> m\<lparr>promises := (promises m)[p := Resolved], queue := queue m @ fs\<rparr>)
      else m)"

section \<open>The respond callback of listen\<close>

definition respond :: "response \<Rightarrow> run_state \<Rightarrow> run_state" where
  "respond r s =
     (if responded s then s
      else s\<lparr>transmitted := transmitted s @ [r], responded := True\<rparr>)"

section \<open>The middleware wrapper and the dispatch chain\<close>

text \<open>
  \<open>URLPattern\<close> belongs to the platform, so the test
  \<open>new URLPattern({ pathname: route }).test(href)\<close> is a parameter \<open>pt route href\<close>.
\<close>

definition isMethodPassed :: "string \<Rightarrow> event \<Rightarrow> bool" where
  "isMethodPassed m e = (m = e_method e \<or> m = ''ANY'')"

definition passes :: "(string \<Rightarrow> string \<Rightarrow> bool) \<Rightarrow> guarded \<Rightarrow> event \<Rightarrow> bool" where
  "passes pt g e = (pt (g_route g) (href e) \<and> isMethodPassed (g_method g) e)"

definition handler_at :: "guarded list \<Rightarrow> int \<Rightarrow> guarded option" where
  "handler_at hs j = (if 0 \<le> j \<and> nat j < length hs then Some (hs ! nat j) else None)"

definition next_k :: "guarded list \<Rightarrow> run_state \<Rightarrow> int \<Rightarrow> continuation" where
  "next_k hs s index =
     (if index \<in> used s \<or> handler_at hs (index + 1) = None then Noop else Step index)"

definition rank :: "guarded list \<Rightarrow> continuation \<Rightarrow> nat" where
  "rank hs k = (case k of Noop \<Rightarrow> 0 | Step i \<Rightarrow> nat (int (length hs) - i))"

text \<open>
  \<open>call\<close> is a call of a continuation, \<open>middleware\<close> a call of a guarded handler and
  \<open>exec\<close> the body of an inner handler from some point on; each runs until its function
  returns or suspends.  \<open>call\<close> gives back the promise of the closure (nothing for
  \<open>() => undefined\<close>), \<open>middleware\<close> the value its promise is resolved with, and the
  promise.  The position \<open>j\<close> given to \<open>middleware\<close> only labels the two logs.  A \<open>Step\<close>
  whose next position holds no handler is never built by \<open>next_k\<close>; there \<open>call\<close> does
  nothing.
\<close>

function (sequential)
  call :: "(string \<Rightarrow> string \<Rightarrow> bool) \<Rightarrow> guarded list \<Rightarrow> continuation \<Rightarrow> machine
           \<Rightarrow> nat option \<times> machine"
  and middleware :: "(string \<Rightarrow> string \<Rightarrow> bool) \<Rightarrow> guarded list \<Rightarrow> int \<Rightarrow> guarded \<Rightarrow> continuation
           \<Rightarrow> machine \<Rightarrow> bool \<times> nat \<times> machine"
  and exec :: "(string \<Rightarrow> string \<Rightarrow> bool) \<Rightarrow> guarded list \<Rightarrow> continuation \<Rightarrow> action list \<Rightarrow> nat
           \<Rightarrow> machine \<Rightarrow> machine"
where
  "call pt hs Noop m = (None, m)"
| "call pt hs (Step i) m =
     (case handler_at hs (i + 1) of
        None \<Rightarrow> (None, m)
      | Some g \<Rightarrow>
          (let pA = length (promises m);
               m1 = alloc m
           in if i \<notin> used (st m1)
              then (let (matched, pG, m2) = middleware pt hs (i + 1) g (next_k hs (st m1) (i + 1)) m1
                    in (Some pA, await (Some pG) (Closure i pA) m2))
              else (let m2 = m1\<lparr>st := (st m1)\<lparr>used := insert i (used (st m1))\<rparr>\<rparr>;
                        m3 = snd (call pt hs (next_k hs (st m2) (i + 1)) m2)
                    in (Some pA, resolve pA m3))))"
| "middleware pt hs j g k m =
     (let pG = length (promises m);
          m1 = alloc m;
          s0 = (st m1)\<lparr>ev := (ev (st m1))\<lparr>route := g_route g\<rparr>, tested := tested (st m1) @ [j]\<rparr>
      in if pt (route (ev s0)) (href (ev s0)) \<and> isMethodPassed (g_method g) (ev s0)
         then (let pH = length (promises m1);
                   m2 = alloc (m1\<lparr>st := s0\<lparr>invoked := invoked s0 @ [j]\<rparr>\<rparr>);
                   m3 = exec pt hs k (g_handler g (ev s0)) pH m2
               in (True, pG, await (Some pH) (Wrapper pG) m3))
         else (False, pG, resolve pG (m1\<lparr>st := s0\<rparr>)))"
| "exec pt hs k [] pH m = resolve pH m"
| "exec pt hs k (Call # as) pH m = exec pt hs k as pH (snd (call pt hs k m))"
| "exec pt hs k (Advance # as) pH m =
     (let (pc, m1) = call pt hs k m in await pc (Handler k as pH) m1)"
| "exec pt hs k (Respond r # as) pH m = exec pt hs k as pH (m\<lparr>st := respond r (st m)\<rparr>)"
| "exec pt hs k (Log l # as) pH m = exec pt hs k as pH m"
  by pat_completeness auto

termination
proof (relation "inv_image (less_than <*lex*> less_than)
    (\<lambda>x. case x of
       Inl (pt, hs, k, m) \<Rightarrow> (rank hs k, 0)
     | Inr (Inl (pt, hs, j, g, k, m)) \<Rightarrow>
         (rank hs k, length (g_handler g ((ev (st m))\<lparr>route := g_route g\<rparr>)) + 2)
     | Inr (Inr (pt, hs, k, as, pH, m)) \<Rightarrow> (rank hs k, Suc (length as)))")
qed (auto simp: rank_def next_k_def handler_at_def alloc_def split: if_splits prod.splits)

text \<open>
  A job: the rest of a suspended function.  For the closure of \<open>next(index)\<close> that is
  \<open>used.add(index); next(index + 1)()\<close>, where the call is not awaited.
\<close>

definition resume :: "(string \<Rightarrow> string \<Rightarrow> bool) \<Rightarrow> guarded list \<Rightarrow> frame \<Rightarrow> machine \<Rightarrow> machine" where
  "resume pt hs f m =
     (case f of
        Closure i pA \<Rightarrow>
          (let m1 = m\<lparr>st := (st m)\<lparr>used := insert i (used (st m))\<rparr>\<rparr>;
               m2 = snd (call pt hs (next_k hs (st m1) (i + 1)) m1)
           in resolve pA m2)
      | Wrapper pG \<Rightarrow> resolve pG m
      | Handler k as pH \<Rightarrow> exec pt hs k as pH m)"

text \<open>The job queue is run until it is empty; \<open>None\<close> when the fuel does not suffice.\<close>

fun drain :: "nat \<Rightarrow> (string \<Rightarrow> string \<Rightarrow> bool) \<Rightarrow> guarded list \<Rightarrow> machine \<Rightarrow> machine option" where
  "drain 0 pt hs m = None"
| "drain (Suc n) pt hs m =
     (case queue m of
        [] \<Rightarrow> Some m
      | f # q \<Rightarrow> drain n pt hs (resume pt hs f (m\<lparr>queue := q\<rparr>)))"

definition init_state :: "event \<Rightarrow> run_state" where
  "init_state e = \<lparr>ev = e, used = {}, responded = False, transmitted = [],
                   tested = [], invoked = []\<rparr>"

text \<open>\<open>next()()\<close> at the end of \<open>#run\<close>, then the jobs it leaves.\<close>

definition start :: "(string \<Rightarrow> string \<Rightarrow> bool) \<Rightarrow> guarded list \<Rightarrow> event \<Rightarrow> machine" where
  "start pt hs e =
     (let m = \<lparr>st = init_state e, promises = [], queue = []\<rparr>
      in snd (call pt hs (next_k hs (st m) (- 1)) m))"

definition run :: "nat \<Rightarrow> (string \<Rightarrow> string \<Rightarrow> bool) \<Rightarrow> guarded list \<Rightarrow> event \<Rightarrow> machine option" where
  "run fuel pt hs e = drain fuel pt hs (start pt hs e)"

section \<open>Fuel that suffices\<close>

text \<open>
  \<open>cost hs e i\<close> bounds the jobs that a call of the closure of \<open>next(i)\<close> can cause,
  \<open>bcost c as\<close> those of a handler body whose continuation costs \<open>c\<close>.  With
  \<open>fuel_for hs e\<close> the queue always runs empty, so \<open>final\<close> is the state in which the
  run of the chain ends.
\<close>

fun bcost :: "nat \<Rightarrow> action list \<Rightarrow> nat" where
  "bcost c [] = 0"
| "bcost c (Call # as) = c + bcost c as"
| "bcost c (Advance # as) = c + 1 + bcost c as"
| "bcost c (Respond r # as) = bcost c as"
| "bcost c (Log l # as) = bcost c as"

function cost :: "guarded list \<Rightarrow> event \<Rightarrow> int \<Rightarrow> nat" where
  "cost hs e i =
     (if i + 1 < int (length hs)
      then (case handler_at hs (i + 1) of
              None \<Rightarrow> cost hs e (i + 1)
            | Some g \<Rightarrow>
                2 + cost hs e (i + 1) + bcost (cost hs e (i + 1)) (g_handler g (e\<lparr>route := g_route g\<rparr>)))
      else 0)"
  by pat_completeness auto

termination
  by (relation "measure (\<lambda>(hs, e, i). nat (int (length hs) - i))") auto

definition fuel_for :: "guarded list \<Rightarrow> event \<Rightarrow> nat" where
  "fuel_for hs e = cost hs e (- 1) + 1"

definition final :: "(string \<Rightarrow> string \<Rightarrow> bool) \<Rightarrow> guarded list \<Rightarrow> event \<Rightarrow> run_state" where
  "final pt hs e = (case run (fuel_for hs e) pt hs e of Some m \<Rightarrow> st m | None \<Rightarrow> init_state e)"

section \<open>Registration\<close>

record server =
  s_middleware :: "guarded list"
  s_listeners :: "guarded list"

definition new_server :: server where
  "new_server = \<lparr>s_middleware = [], s_listeners = []\<rparr>"

definition Middleware :: "string \<Rightarrow> string \<Rightarrow> (event \<Rightarrow> action list) \<Rightarrow> guarded" where
  "Middleware m r h = \<lparr>g_method = m, g_route = r, g_handler = h\<rparr>"

text \<open>
  Modelled from the spec: \<open>router.ts\<close> is not among the sources; a Router "exposes" its
  guarded handlers "as an ordered list for merging into a Server", so a router is the
  list that \<open>router.handlers()\<close> returns.
\<close>

datatype use_args = Handlers "(event \<Rightarrow> action list) list" | Routers "guarded list list"


definition use :: "string \<Rightarrow> string \<Rightarrow> use_args \<Rightarrow> server \<Rightarrow> server" where
  "use rt m args srv =
     (case args of
        Routers routers \<Rightarrow>
          fold (\<lambda>router sv. sv\<lparr>s_middleware := s_middleware sv @ router\<rparr>) routers srv
      | Handlers handlers \<Rightarrow>
          fold (\<lambda>handler sv. sv\<lparr>s_middleware := s_middleware sv @ [Middleware m rt handler]\<rparr>)
            handlers srv)"







section \<open>Strings\<close>

text \<open>\<open>s.split(c)\<close> for a one-character separator: never the empty array.\<close>

fun split_on :: "char \<Rightarrow> string \<Rightarrow> string list" where
  "split_on c [] = [[]]"
| "split_on c (x # xs) =
     (if x = c then [] # split_on c xs
      else (case split_on c xs of [] \<Rightarrow> [[x]] | y # ys \<Rightarrow> (x # y) # ys))"

text \<open>\<open>xs.join(sep)\<close>.\<close>

fun join_with :: "string \<Rightarrow> string list \<Rightarrow> string" where
  "join_with sep [] = []"
| "join_with sep [x] = x"
| "join_with sep (x # y # ys) = x @ sep @ join_with sep (y # ys)"

text \<open>\<open>xs.at(-1)\<close>: undefined on the empty array.\<close>

definition at_last :: "'a list \<Rightarrow> 'a option" where
  "at_last xs = (if xs = [] then None else Some (last xs))"

text \<open>
  \<open>route.replace(/\/?\*?$/, '/*')\<close>: the leftmost match of an optional slash and an
  optional star at the end of the string is replaced.
\<close>

definition replace_tail :: "string \<Rightarrow> string" where
  "replace_tail r =
     (if 2 \<le> length r \<and> drop (length r - 2) r = ''/*'' then take (length r - 2) r @ ''/*''
      else if r \<noteq> [] \<and> (last r = CHR ''/'' \<or> last r = CHR ''*'') then butlast r @ ''/*''
      else r @ ''/*'')"

text \<open>\<open>s.replace(/\/+/g, '/')\<close>.\<close>

fun collapse_slashes :: "string \<Rightarrow> string" where
  "collapse_slashes (x # y # r) =
     (if x = CHR ''/'' \<and> y = CHR ''/'' then collapse_slashes (y # r)
      else x # collapse_slashes (y # r))"
| "collapse_slashes r = r"

definition normalize_route :: "string \<Rightarrow> string" where
  "normalize_route r = collapse_slashes (CHR ''/'' # replace_tail r)"

text \<open>\<open>pathname.replace(/^\//, '')\<close>.\<close>

fun drop_leading_slash :: "string \<Rightarrow> string" where
  "drop_leading_slash (x # xs) = (if x = CHR ''/'' then xs else x # xs)"
| "drop_leading_slash [] = []"

section \<open>The static file handler\<close>

text \<open>
  What the handler takes from outside the repository: \<open>Deno.cwd()\<close>, the pathname of
  \<open>new URL(href)\<close>, \<open>fetch\<close> of a \<open>file://\<close> path followed by \<open>arrayBuffer\<close>
  (\<open>None\<close> when the promise rejects), and the table \<open>CONTENT_TYPES\<close>.

  Modelled from the spec: \<open>constants.ts\<close> is not among the sources; the content-type
  table is a "mapping from file extension (string, no leading dot) to MIME type string",
  so it is the list of its entries, and \<open>CONTENT_TYPES[key]\<close> is the type of the entry
  with that key, nullish when there is none.
\<close>

record env =
  cwd :: string
  pathname :: "string \<Rightarrow> string"
  fetch :: "string \<Rightarrow> string option"
  content_types :: "(string \<times> string) list"

definition static_path :: "env \<Rightarrow> string \<Rightarrow> string \<Rightarrow> string \<Rightarrow> string" where
  "static_path en rt root hrf =
     (let base = filter (\<lambda>item. item \<noteq> ''*'' \<and> item \<noteq> []) (split_on CHR ''/'' rt);
          rest = drop (length base) (split_on CHR ''/'' (drop_leading_slash (pathname en hrf)))
      in ''file://'' @ join_with ''/'' ([cwd en, root] @ rest))"

definition content_type_key :: "string \<Rightarrow> string" where
  "content_type_key path =
     (case at_last (split_on CHR ''/'' path) of
        None \<Rightarrow> []
      | Some seg \<Rightarrow> (case at_last (split_on CHR ''.'' seg) of None \<Rightarrow> [] | Some k \<Rightarrow> k))"

definition content_type :: "env \<Rightarrow> string \<Rightarrow> string" where
  "content_type en path =
     (case map_of (content_types en) (content_type_key path) of None \<Rightarrow> ''text/plain'' | Some ct \<Rightarrow> ct)"

definition not_found :: response where
  "not_found = \<lparr>status = Some 404, body = None, headers = []\<rparr>"

definition static_handler :: "env \<Rightarrow> string \<Rightarrow> string \<Rightarrow> event \<Rightarrow> action list" where
  "static_handler en rt root e =
     (let path = static_path en rt root (href e);
          contentType = content_type en path
      in case fetch en path of
           Some bytes \<Rightarrow>
             [Respond \<lparr>status = None, body = Some bytes,
                       headers = [(''content-type'', contentType)]\<rparr>]
         | None \<Rightarrow> [Respond not_found])"

definition static :: "env \<Rightarrow> string \<Rightarrow> string \<Rightarrow> server \<Rightarrow> server" where
  "static en rt root srv =
     (let rt' = normalize_route rt
      in use rt' ''GET'' (Handlers [static_handler en rt' root]) srv)"

section \<open>A model of the pattern test\<close>

text \<open>
  \<open>URLPattern\<close> and \<open>URL\<close> are the platform's.  For pathname patterns made of literal
  characters and the wildcard \<open>*\<close>, and for URLs \<open>scheme://authority/path?query#fragment\<close>
  whose path needs no normalisation, the platform's test is: take the path of the URL and
  match it whole against the pattern, \<open>*\<close> standing for any run of characters.
\<close>

fun glob :: "string \<Rightarrow> string \<Rightarrow> bool" where
  "glob [] [] = True"
| "glob [] (x # xs) = False"
| "glob (c # p) [] = (c = CHR ''*'' \<and> glob p [])"
| "glob (c # p) (x # xs) =
     (if c = CHR ''*'' then glob p (x # xs) \<or> glob (c # p) xs else c = x \<and> glob p xs)"

fun after_authority :: "string \<Rightarrow> string" where
  "after_authority (a # b # c # r) =
     (if a = CHR '':'' \<and> b = CHR ''/'' \<and> c = CHR ''/''
      then dropWhile (\<lambda>x. x \<noteq> CHR ''/'' \<and> x \<noteq> CHR ''?'' \<and> x \<noteq> CHR ''#'') r
      else after_authority (b # c # r))"
| "after_authority r = []"

definition url_pathname :: "string \<Rightarrow> string" where
  "url_pathname hrf =
     (let p = takeWhile (\<lambda>x. x \<noteq> CHR ''?'' \<and> x \<noteq> CHR ''#'') (after_authority hrf)
      in if p = [] then ''/'' else p)"

definition url_pattern_test :: "string \<Rightarrow> string \<Rightarrow> bool" where
  "url_pattern_test rt hrf = glob rt (url_pathname hrf)"

section \<open>The scenario of the specification\<close>

text \<open>
  A logging middleware and a listener that answers, registered by \<open>use\<close> with the route
  \<open>rt\<close> and the method ANY, then by \<open>on\<close> with the route \<open>/hello\<close> and the method
  GET; and a request for \<open>/hello\<close> with the method \<open>m\<close>.
\<close>

definition logHandler :: "event \<Rightarrow> action list" where
  "logHandler e = [Log (href e)]"

definition helloHandler :: "event \<Rightarrow> action list" where
  "helloHandler e = [Respond \<lparr>status = None, body = Some ''Hello World'', headers = []\<rparr>]"

text \<open>
  Handlers that only differ in how they call their continuation: \<open>next()\<close> once or twice
  without awaiting, \<open>await next()\<close> once or twice, or not at all.
\<close>

definition callsNext :: "event \<Rightarrow> action list" where
  "callsNext e = [Call]"

definition callsTwice :: "event \<Rightarrow> action list" where
  "callsTwice e = [Call, Call]"

definition awaitsNext :: "event \<Rightarrow> action list" where
  "awaitsNext e = [Advance]"

definition awaitsTwice :: "event \<Rightarrow> action list" where
  "awaitsTwice e = [Advance, Advance]"

definition returns :: "event \<Rightarrow> action list" where
  "returns e = []"


definition request_hello :: "string \<Rightarrow> event" where
  "request_hello m = \<lparr>href = ''http://localhost:8080/hello'', e_method = m, route = []\<rparr>"

section \<open>Notions used in the proofs\<close>

text \<open>
  \<open>potential\<close> is the weight of all suspended frames, which every job makes smaller.
  \<open>located m\<close> are the frames in the queue or awaiting a promise, \<open>pending m\<close> the
  promises not yet resolved, \<open>own f\<close> the promise that the frame \<open>f\<close> resolves;
  \<open>well_formed A m\<close> says that every pending promise outside \<open>A\<close> is owned by a
  located frame and that a frame awaits promises younger than its own.  \<open>live hs X m\<close>
  says that for every tested position outside \<open>X\<close> the closure that will go on from it
  is still located or has gone on.  \<open>in_order xs\<close> says that every entry of \<open>xs\<close> comes
  after all smaller positions.  \<open>at_most_one s\<close> says that at most one response was
  given to \<open>respondWith\<close>.
\<close>

definition ck :: "guarded list \<Rightarrow> event \<Rightarrow> continuation \<Rightarrow> nat" where
  "ck hs e k = (case k of Noop \<Rightarrow> 0 | Step i \<Rightarrow> cost hs e i)"

fun wt :: "guarded list \<Rightarrow> event \<Rightarrow> frame \<Rightarrow> nat" where
  "wt hs e (Closure i pA) = 1 + cost hs e (i + 1)"
| "wt hs e (Wrapper pG) = 1"
| "wt hs e (Handler k as pH) = 1 + bcost (ck hs e k) as"

definition pwt :: "guarded list \<Rightarrow> event \<Rightarrow> pstate \<Rightarrow> nat" where
  "pwt hs e p = (case p of Resolved \<Rightarrow> 0 | Pending fs \<Rightarrow> sum_list (map (wt hs e) fs))"

definition potential :: "guarded list \<Rightarrow> event \<Rightarrow> machine \<Rightarrow> nat" where
  "potential hs e m = sum_list (map (wt hs e) (queue m)) + sum_list (map (pwt hs e) (promises m))"

definition same_req :: "event \<Rightarrow> machine \<Rightarrow> bool" where
  "same_req e m = (href (ev (st m)) = href e \<and> e_method (ev (st m)) = e_method e)"

definition enter :: "int \<Rightarrow> guarded \<Rightarrow> run_state \<Rightarrow> run_state" where
  "enter j g s = s\<lparr>ev := (ev s)\<lparr>route := g_route g\<rparr>, tested := tested s @ [j]\<rparr>"

definition enter_run :: "int \<Rightarrow> guarded \<Rightarrow> run_state \<Rightarrow> run_state" where
  "enter_run j g s =
     s\<lparr>ev := (ev s)\<lparr>route := g_route g\<rparr>, tested := tested s @ [j], invoked := invoked s @ [j]\<rparr>"

definition grows :: "machine \<Rightarrow> machine \<Rightarrow> bool" where
  "grows m m' =
     (length (promises m) \<le> length (promises m') \<and>
      set (tested (st m)) \<subseteq> set (tested (st m')) \<and>
      used (st m) \<subseteq> used (st m'))"

fun own :: "frame \<Rightarrow> nat" where
  "own (Closure i pA) = pA"
| "own (Wrapper pG) = pG"
| "own (Handler k as pH) = pH"

fun waiters :: "pstate \<Rightarrow> frame set" where
  "waiters Resolved = {}"
| "waiters (Pending fs) = set fs"

definition waiting :: "machine \<Rightarrow> frame set" where
  "waiting m = (\<Union>p\<in>set (promises m). waiters p)"

definition located :: "machine \<Rightarrow> frame set" where
  "located m = set (queue m) \<union> waiting m"

definition pending :: "machine \<Rightarrow> nat set" where
  "pending m = {q. q < length (promises m) \<and> promises m ! q \<noteq> Resolved}"

definition ordered :: "machine \<Rightarrow> bool" where
  "ordered m =
     (\<forall>q fs f. q < length (promises m) \<and> promises m ! q = Pending fs \<and> f \<in> set fs \<longrightarrow> own f < q)"

definition well_formed :: "nat set \<Rightarrow> machine \<Rightarrow> bool" where
  "well_formed A m =
     (pending m \<subseteq> A \<union> own ` located m \<and> ordered m \<and>
      (\<forall>q \<in> A \<union> own ` located m. q < length (promises m)))"

definition live :: "guarded list \<Rightarrow> int set \<Rightarrow> machine \<Rightarrow> bool" where
  "live hs X m =
     ((\<forall>j \<in> set (tested (st m)).
         j \<in> X \<or> (\<exists>pA. Closure (j - 1) pA \<in> located m) \<or>
         (j - 1 \<in> used (st m) \<and> (handler_at hs (j + 1) \<noteq> None \<longrightarrow> j + 1 \<in> set (tested (st m))))) \<and>
      (\<forall>i \<in> used (st m). i + 1 \<in> set (tested (st m))) \<and>
      (\<forall>i pA. Closure i pA \<in> located m \<longrightarrow> i + 1 \<in> set (tested (st m))))"

fun reopened :: "frame \<Rightarrow> int set" where
  "reopened (Closure i pA) = {i + 1}"
| "reopened (Wrapper pG) = {}"
| "reopened (Handler k as pH) = {}"

definition logs_ok :: "(string \<Rightarrow> string \<Rightarrow> bool) \<Rightarrow> guarded list \<Rightarrow> event \<Rightarrow> run_state \<Rightarrow> bool" where
  "logs_ok pt hs e s =
     ((\<forall>j \<in> set (tested s). handler_at hs j \<noteq> None) \<and>
      (\<forall>j. j \<in> set (invoked s) \<longleftrightarrow>
           j \<in> set (tested s) \<and> (\<exists>g. handler_at hs j = Some g \<and> passes pt g e)) \<and>
      (if tested s = [] then route (ev s) = route e
       else \<exists>g. handler_at hs (last (tested s)) = Some g \<and> route (ev s) = g_route g) \<and>
      href (ev s) = href e \<and> e_method (ev s) = e_method e)"

definition in_order :: "int list \<Rightarrow> bool" where
  "in_order xs = (\<forall>ys j zs. xs = ys @ j # zs \<longrightarrow> (\<forall>i. 0 \<le> i \<and> i < j \<longrightarrow> i \<in> set ys))"

definition reached :: "int \<Rightarrow> run_state \<Rightarrow> bool" where
  "reached i s = (\<forall>i'. 0 \<le> i' \<and> i' \<le> i \<longrightarrow> i' \<in> set (tested s))"

definition valid :: "continuation \<Rightarrow> run_state \<Rightarrow> bool" where
  "valid k s = (case k of Noop \<Rightarrow> True | Step i \<Rightarrow> reached i s)"

fun frame_ok :: "run_state \<Rightarrow> frame \<Rightarrow> bool" where
  "frame_ok s (Closure i pA) = reached (i + 1) s"
| "frame_ok s (Wrapper pG) = True"
| "frame_ok s (Handler k as pH) = valid k s"

definition ord :: "machine \<Rightarrow> bool" where
  "ord m =
     (in_order (tested (st m)) \<and> (\<forall>f \<in> located m. frame_ok (st m) f) \<and>
      (\<forall>i \<in> used (st m). reached (i + 1) (st m)))"

definition at_most_one :: "run_state \<Rightarrow> bool" where
  "at_most_one s = (length (transmitted s) \<le> 1 \<and> (responded s \<longleftrightarrow> transmitted s \<noteq> []))"

section \<open>The potential of a machine\<close>

declare cost.simps [simp del]

lemma bcost_mono: "c \<le> d \<Longrightarrow> bcost c as \<le> bcost d as"
  by (induction c as rule: bcost.induct) auto

lemma cost_next: "cost hs e (i + 1) \<le> cost hs e i"
proof (cases "i + 1 < int (length hs)")
  case True
  then show ?thesis by (simp add: cost.simps [of hs e i] split: option.split)
next
  case False
  then show ?thesis by (simp add: cost.simps [of hs e i] cost.simps [of hs e "i + 1"])
qed

lemma cost_Some:
  "handler_at hs (i + 1) = Some g \<Longrightarrow>
   cost hs e i = 2 + cost hs e (i + 1) + bcost (cost hs e (i + 1)) (g_handler g (e\<lparr>route := g_route g\<rparr>))"
  by (simp add: cost.simps [of hs e i] handler_at_def split: if_splits)

lemma ck_next_k: "ck hs e (next_k hs s i) \<le> cost hs e i"
  by (simp add: ck_def next_k_def)

lemma potential_st [simp]: "potential hs e (m\<lparr>st := s\<rparr>) = potential hs e m"
  by (simp add: potential_def)

lemma same_req_st: "same_req e (m\<lparr>st := s\<rparr>) = (href (ev s) = href e \<and> e_method (ev s) = e_method e)"
  by (simp add: same_req_def)

lemma potential_enqueue [simp]: "potential hs e (enqueue f m) = potential hs e m + wt hs e f"
  by (simp add: potential_def enqueue_def)

lemma st_enqueue [simp]: "st (enqueue f m) = st m"
  by (simp add: enqueue_def)

lemma sum_pwt_update:
  assumes "q < length ps" "ps ! q = Pending fs"
  shows "sum_list (map (pwt hs e) (ps[q := Pending (fs @ [f])])) = sum_list (map (pwt hs e) ps) + wt hs e f"
proof -
  have "sum_list (map (pwt hs e) (ps[q := Pending (fs @ [f])]))
      = sum_list ((map (pwt hs e) ps)[q := pwt hs e (Pending (fs @ [f]))])"
    by (simp add: map_update)
  also have "\<dots> = sum_list (map (pwt hs e) ps) + pwt hs e (Pending (fs @ [f])) - pwt hs e (ps ! q)"
    using assms(1) by (simp add: sum_list_update)
  also have "\<dots> = sum_list (map (pwt hs e) ps) + wt hs e f"
    using assms(2) by (simp add: pwt_def)
  finally show ?thesis .
qed

lemma sum_pwt_resolve:
  assumes "q < length ps" "ps ! q = Pending fs"
  shows "sum_list (map (pwt hs e) (ps[q := Resolved])) + sum_list (map (wt hs e) fs) = sum_list (map (pwt hs e) ps)"
proof -
  have "ps ! q \<in> set ps" using assms(1) by simp
  then have "pwt hs e (ps ! q) \<in> set (map (pwt hs e) ps)" by simp
  then have m: "pwt hs e (ps ! q) \<le> sum_list (map (pwt hs e) ps)" by (simp add: member_le_sum_list)
  have "sum_list (map (pwt hs e) (ps[q := Resolved]))
      = sum_list ((map (pwt hs e) ps)[q := pwt hs e Resolved])"
    by (simp add: map_update)
  also have "\<dots> = sum_list (map (pwt hs e) ps) + pwt hs e Resolved - pwt hs e (ps ! q)"
    using assms(1) by (simp add: sum_list_update)
  finally show ?thesis using assms(2) m by (simp add: pwt_def)
qed

lemma potential_await [simp]: "potential hs e (await p f m) = potential hs e m + wt hs e f"
proof (cases p)
  case None
  then show ?thesis by (simp add: await_def)
next
  case (Some q)
  show ?thesis
  proof (cases "q < length (promises m)")
    case False
    then show ?thesis using Some by (simp add: await_def)
  next
    case True
    show ?thesis
    proof (cases "promises m ! q")
      case Resolved
      then show ?thesis using Some True by (simp add: await_def)
    next
      case (Pending fs)
      then show ?thesis using Some True sum_pwt_update [OF True Pending, of hs e f]
        by (simp add: await_def potential_def)
    qed
  qed
qed

lemma st_await [simp]: "st (await p f m) = st m"
  by (simp add: await_def enqueue_def split: option.split pstate.split)

lemma potential_resolve [simp]: "potential hs e (resolve p m) = potential hs e m"
proof (cases "p < length (promises m)")
  case False
  then show ?thesis by (simp add: resolve_def)
next
  case True
  show ?thesis
  proof (cases "promises m ! p")
    case Resolved
    then show ?thesis using True by (simp add: resolve_def)
  next
    case (Pending fs)
    then show ?thesis using True sum_pwt_resolve [OF True Pending, of hs e]
      by (simp add: resolve_def potential_def)
  qed
qed

lemma st_resolve [simp]: "st (resolve p m) = st m"
  by (simp add: resolve_def split: pstate.split)

lemma potential_alloc [simp]: "potential hs e (alloc m) = potential hs e m"
  by (simp add: alloc_def potential_def pwt_def)

lemma st_alloc [simp]: "st (alloc m) = st m"
  by (simp add: alloc_def)

section \<open>Unfolding the three functions\<close>

lemma isMethodPassed_route [simp]: "isMethodPassed m (e\<lparr>route := r\<rparr>) = isMethodPassed m e"
  by (simp add: isMethodPassed_def)

lemma passes_route [simp]: "passes pt g (e\<lparr>route := r\<rparr>) = passes pt g e"
  by (simp add: passes_def isMethodPassed_def)

lemma alloc_st: "alloc (m\<lparr>st := s\<rparr>) = (alloc m)\<lparr>st := s\<rparr>"
  by (simp add: alloc_def)

lemma length_alloc [simp]: "length (promises (alloc m)) = Suc (length (promises m))"
  by (simp add: alloc_def)

lemma call_None: "handler_at hs (i + 1) = None \<Longrightarrow> call pt hs (Step i) m = (None, m)"
  by simp

lemma call_fresh:
  assumes "handler_at hs (i + 1) = Some g" "i \<notin> used (st m)"
  shows "call pt hs (Step i) m =
    (Some (length (promises m)),
     await (Some (fst (snd (middleware pt hs (i + 1) g (next_k hs (st m) (i + 1)) (alloc m)))))
       (Closure i (length (promises m)))
       (snd (snd (middleware pt hs (i + 1) g (next_k hs (st m) (i + 1)) (alloc m)))))"
  using assms by (simp add: Let_def split_def del: middleware.simps)

lemma call_used:
  assumes "handler_at hs (i + 1) = Some g" "i \<in> used (st m)"
  shows "call pt hs (Step i) m =
    (Some (length (promises m)),
     resolve (length (promises m)) (snd (call pt hs (next_k hs (st m) (i + 1)) (alloc m))))"
proof -
  have "(st m)\<lparr>used := insert i (used (st m))\<rparr> = st m"
    using assms(2) by (simp add: insert_absorb)
  then have "(alloc m)\<lparr>st := (st (alloc m))\<lparr>used := insert i (used (st (alloc m)))\<rparr>\<rparr> = alloc m"
    by simp
  then show ?thesis using assms by (simp add: Let_def)
qed

lemma middleware_fail:
  assumes "\<not> passes pt g (ev (st m))"
  shows "middleware pt hs j g k m =
    (False, length (promises m), resolve (length (promises m)) ((alloc m)\<lparr>st := enter j g (st m)\<rparr>))"
  using assms by (simp add: Let_def passes_def enter_def)

lemma middleware_pass:
  assumes "passes pt g (ev (st m))"
  shows "middleware pt hs j g k m =
    (True, length (promises m),
     await (Some (Suc (length (promises m)))) (Wrapper (length (promises m)))
       (exec pt hs k (g_handler g ((ev (st m))\<lparr>route := g_route g\<rparr>)) (Suc (length (promises m)))
          ((alloc (alloc m))\<lparr>st := enter_run j g (st m)\<rparr>)))"
  using assms by (simp add: Let_def passes_def enter_run_def alloc_st)

lemma exec_Advance:
  "exec pt hs k (Advance # as) pH m =
     await (fst (call pt hs k m)) (Handler k as pH) (snd (call pt hs k m))"
  by (simp add: split_def Let_def)

declare call.simps(2) [simp del]

declare middleware.simps [simp del]

declare exec.simps(3) [simp del]

lemma chain_induct [case_names Noop None Fresh Used Fail Pass Nil Call Advance Respond Log]:
  assumes "\<And>pt hs m. P pt hs Noop m"
    and "\<And>pt hs i m. handler_at hs (i + 1) = None \<Longrightarrow> P pt hs (Step i) m"
    and "\<And>pt hs i g m. handler_at hs (i + 1) = Some g \<Longrightarrow> i \<notin> used (st m) \<Longrightarrow>
           Q pt hs (i + 1) g (next_k hs (st m) (i + 1)) (alloc m) \<Longrightarrow> P pt hs (Step i) m"
    and "\<And>pt hs i g m. handler_at hs (i + 1) = Some g \<Longrightarrow> i \<in> used (st m) \<Longrightarrow>
           P pt hs (next_k hs (st m) (i + 1)) (alloc m) \<Longrightarrow> P pt hs (Step i) m"
    and "\<And>pt hs j g k m. \<not> passes pt g (ev (st m)) \<Longrightarrow> Q pt hs j g k m"
    and "\<And>pt hs j g k m. passes pt g (ev (st m)) \<Longrightarrow>
           R pt hs k (g_handler g ((ev (st m))\<lparr>route := g_route g\<rparr>)) (Suc (length (promises m)))
             ((alloc (alloc m))\<lparr>st := enter_run j g (st m)\<rparr>) \<Longrightarrow> Q pt hs j g k m"
    and "\<And>pt hs k pH m. R pt hs k [] pH m"
    and "\<And>pt hs k as pH m. P pt hs k m \<Longrightarrow> R pt hs k as pH (snd (call pt hs k m)) \<Longrightarrow>
           R pt hs k (Call # as) pH m"
    and "\<And>pt hs k as pH m. P pt hs k m \<Longrightarrow> R pt hs k (Advance # as) pH m"
    and "\<And>pt hs k r as pH m. R pt hs k as pH (m\<lparr>st := respond r (st m)\<rparr>) \<Longrightarrow>
           R pt hs k (Respond r # as) pH m"
    and "\<And>pt hs k l as pH m. R pt hs k as pH m \<Longrightarrow> R pt hs k (Log l # as) pH m"
  shows "P pt hs k m" and "Q pt hs j g k m" and "R pt hs k as pH m"
proof (induction pt hs k m and pt hs j g k m and pt hs k as pH m rule: call_middleware_exec.induct)
  case (1 pt hs m)
  show ?case by (rule assms(1))
next
  case (2 pt hs i m)
  show ?case
  proof (cases "handler_at hs (i + 1)")
    case None
    then show ?thesis by (rule assms(2))
  next
    case (Some g)
    show ?thesis
    proof (cases "i \<in> used (st m)")
      case True
      have "(st m)\<lparr>used := insert i (used (st m))\<rparr> = st m"
        using True by (simp add: insert_absorb)
      then have eq: "(alloc m)\<lparr>st := (st (alloc m))\<lparr>used := insert i (used (st (alloc m)))\<rparr>\<rparr> = alloc m"
        by simp
      have "P pt hs (next_k hs (st (alloc m)) (i + 1)) (alloc m)"
        using "2.IH"(2) [OF Some refl refl _ refl] True unfolding eq by simp
      then show ?thesis using assms(4) [OF Some True] by simp
    next
      case False
      have "Q pt hs (i + 1) g (next_k hs (st (alloc m)) (i + 1)) (alloc m)"
        using "2.IH"(1) [OF Some refl refl] False by simp
      then show ?thesis using assms(3) [OF Some False] by simp
    qed
  qed
next
  case (3 pt hs j g k m)
  show ?case
  proof (cases "passes pt g (ev (st m))")
    case False
    then show ?thesis by (rule assms(5))
  next
    case True
    have "R pt hs k (g_handler g (ev (enter j g (st (alloc m))))) (length (promises (alloc m)))
        (alloc ((alloc m)\<lparr>st := (enter j g (st (alloc m)))\<lparr>invoked := invoked (enter j g (st (alloc m))) @ [j]\<rparr>\<rparr>))"
      using "3.IH" [OF refl refl refl _ refl refl] True
      unfolding enter_def by (simp add: passes_def)
    then have "R pt hs k (g_handler g ((ev (st m))\<lparr>route := g_route g\<rparr>)) (Suc (length (promises m)))
             ((alloc (alloc m))\<lparr>st := enter_run j g (st m)\<rparr>)"
      by (simp add: enter_def enter_run_def alloc_st)
    then show ?thesis by (rule assms(6) [OF True])
  qed
next
  case (4 pt hs k pH m)
  show ?case by (rule assms(7))
next
  case (5 pt hs k as pH m)
  then show ?case by (intro assms(8))
next
  case (6 pt hs k as pH m)
  then show ?case by (intro assms(9))
next
  case (7 pt hs k r as pH m)
  then show ?case by (intro assms(10))
next
  case (8 pt hs k l as pH m)
  then show ?case by (intro assms(11))
qed

section \<open>The run ends\<close>

lemma ev_enter [simp]:
  "ev (enter j g s) = (ev s)\<lparr>route := g_route g\<rparr>"
  "ev (enter_run j g s) = (ev s)\<lparr>route := g_route g\<rparr>"
  "ev (respond r s) = ev s"
  by (simp_all add: enter_def enter_run_def respond_def)

lemma same_req_simps [simp]:
  "same_req e (alloc m) = same_req e m"
  "same_req e (await p f m) = same_req e m"
  "same_req e (resolve q m) = same_req e m"
  "same_req e (enqueue f m) = same_req e m"
  "same_req e (m\<lparr>queue := qu\<rparr>) = same_req e m"
  "same_req e (m\<lparr>st := s\<rparr>) = (href (ev s) = href e \<and> e_method (ev s) = e_method e)"
  by (simp_all add: same_req_def)

lemma route_upd_same: "same_req e m \<Longrightarrow> (ev (st m))\<lparr>route := r\<rparr> = e\<lparr>route := r\<rparr>"
  by (cases "ev (st m)"; cases e) (simp add: same_req_def)

lemma potential_queue_tl: "queue m = f # q \<Longrightarrow> potential hs e (m\<lparr>queue := q\<rparr>) + wt hs e f = potential hs e m"
  by (simp add: potential_def)

lemma bound:
  "same_req e m \<longrightarrow>
     potential hs e (snd (call pt hs k m)) \<le> potential hs e m + ck hs e k \<and>
     same_req e (snd (call pt hs k m))"
  "same_req e m \<longrightarrow>
     potential hs e (snd (snd (middleware pt hs j g k m)))
       \<le> potential hs e m + 1 + bcost (ck hs e k) (g_handler g (e\<lparr>route := g_route g\<rparr>)) \<and>
     same_req e (snd (snd (middleware pt hs j g k m)))"
  "same_req e m \<longrightarrow>
     potential hs e (exec pt hs k as pH m) \<le> potential hs e m + bcost (ck hs e k) as \<and>
     same_req e (exec pt hs k as pH m)"
proof (induction pt hs k m and pt hs j g k m and pt hs k as pH m rule: chain_induct)
  case (Noop pt hs m)
  show ?case by simp
next
  case (None pt hs i m)
  then show ?case by (simp add: call_None)
next
  case (Fresh pt hs i g m)
  show ?case
  proof
    assume s: "same_req e m"
    let ?mw = "middleware pt hs (i + 1) g (next_k hs (st m) (i + 1)) (alloc m)"
    have ih: "potential hs e (snd (snd ?mw))
        \<le> potential hs e m + 1 + bcost (ck hs e (next_k hs (st m) (i + 1))) (g_handler g (e\<lparr>route := g_route g\<rparr>))"
      and sr: "same_req e (snd (snd ?mw))"
      using Fresh.IH s by simp_all
    have "bcost (ck hs e (next_k hs (st m) (i + 1))) (g_handler g (e\<lparr>route := g_route g\<rparr>))
        \<le> bcost (cost hs e (i + 1)) (g_handler g (e\<lparr>route := g_route g\<rparr>))"
      by (rule bcost_mono) (rule ck_next_k)
    then show "potential hs e (snd (call pt hs (Step i) m)) \<le> potential hs e m + ck hs e (Step i) \<and>
        same_req e (snd (call pt hs (Step i) m))"
      using ih sr by (simp add: call_fresh [OF Fresh.hyps] ck_def cost_Some [OF Fresh.hyps(1)])
  qed
next
  case (Used pt hs i g m)
  show ?case
  proof
    assume s: "same_req e m"
    have ih: "potential hs e (snd (call pt hs (next_k hs (st m) (i + 1)) (alloc m)))
        \<le> potential hs e m + ck hs e (next_k hs (st m) (i + 1))"
      and sr: "same_req e (snd (call pt hs (next_k hs (st m) (i + 1)) (alloc m)))"
      using Used.IH s by simp_all
    have "ck hs e (next_k hs (st m) (i + 1)) \<le> cost hs e (i + 1)" by (rule ck_next_k)
    then show "potential hs e (snd (call pt hs (Step i) m)) \<le> potential hs e m + ck hs e (Step i) \<and>
        same_req e (snd (call pt hs (Step i) m))"
      using ih sr by (simp add: call_used [OF Used.hyps] ck_def cost_Some [OF Used.hyps(1)])
  qed
next
  case (Fail pt hs j g k m)
  then show ?case by (simp add: middleware_fail same_req_def)
next
  case (Pass pt hs j g k m)
  show ?case
  proof
    assume s: "same_req e m"
    have b: "(ev (st m))\<lparr>route := g_route g\<rparr> = e\<lparr>route := g_route g\<rparr>"
      using s by (rule route_upd_same)
    show "potential hs e (snd (snd (middleware pt hs j g k m)))
       \<le> potential hs e m + 1 + bcost (ck hs e k) (g_handler g (e\<lparr>route := g_route g\<rparr>)) \<and>
     same_req e (snd (snd (middleware pt hs j g k m)))"
      using Pass.IH s by (simp add: middleware_pass [OF Pass.hyps] b same_req_def)
  qed
next
  case (Nil pt hs k pH m)
  show ?case by simp
next
  case (Call pt hs k as pH m)
  then show ?case by auto
next
  case (Advance pt hs k as pH m)
  then show ?case by (simp add: exec_Advance)
next
  case (Respond pt hs k r as pH m)
  then show ?case by (simp add: same_req_def)
next
  case (Log pt hs k l as pH m)
  then show ?case by simp
qed

lemma resume_bound:
  assumes "same_req e m"
  shows "potential hs e (resume pt hs f m) + 1 \<le> potential hs e m + wt hs e f \<and>
         same_req e (resume pt hs f m)"
proof (cases f)
  case (Closure i pA)
  let ?m1 = "m\<lparr>st := (st m)\<lparr>used := insert i (used (st m))\<rparr>\<rparr>"
  have s1: "same_req e ?m1" using assms by (simp add: same_req_def)
  have "potential hs e (snd (call pt hs (next_k hs (st ?m1) (i + 1)) ?m1))
      \<le> potential hs e ?m1 + ck hs e (next_k hs (st ?m1) (i + 1))"
    and "same_req e (snd (call pt hs (next_k hs (st ?m1) (i + 1)) ?m1))"
    using bound(1) [of e ?m1 hs pt] s1 by blast+
  moreover have "ck hs e (next_k hs (st ?m1) (i + 1)) \<le> cost hs e (i + 1)" by (rule ck_next_k)
  ultimately show ?thesis using Closure by (simp add: resume_def Let_def)
next
  case (Wrapper pG)
  then show ?thesis using assms by (simp add: resume_def)
next
  case (Handler k as pH)
  then show ?thesis using bound(3) [of e m hs pt k as pH] assms by (simp add: resume_def)
qed

lemma drain_terminates:
  "same_req e m \<Longrightarrow> potential hs e m < fuel \<Longrightarrow> \<exists>m'. drain fuel pt hs m = Some m' \<and> queue m' = []"
proof (induction fuel arbitrary: m)
  case 0
  then show ?case by simp
next
  case (Suc n)
  show ?case
  proof (cases "queue m")
    case Nil
    then show ?thesis by simp
  next
    case (Cons f q)
    let ?m = "resume pt hs f (m\<lparr>queue := q\<rparr>)"
    have "same_req e (m\<lparr>queue := q\<rparr>)" using Suc.prems(1) by simp
    then have "potential hs e ?m + 1 \<le> potential hs e (m\<lparr>queue := q\<rparr>) + wt hs e f" and s: "same_req e ?m"
      using resume_bound by blast+
    then have "potential hs e ?m < n"
      using potential_queue_tl [OF Cons, of hs e] Suc.prems(2) by simp
    then show ?thesis using Suc.IH [OF s] Cons by simp
  qed
qed

lemma start_bound: "potential hs e (start pt hs e) \<le> cost hs e (- 1) \<and> same_req e (start pt hs e)"
proof -
  let ?m = "\<lparr>st = init_state e, promises = [], queue = []\<rparr>"
  have s: "same_req e ?m" by (simp add: same_req_def init_state_def)
  have p: "potential hs e ?m = 0" by (simp add: potential_def)
  have "ck hs e (next_k hs (st ?m) (- 1)) \<le> cost hs e (- 1)" by (rule ck_next_k)
  then show ?thesis using bound(1) [of e ?m hs pt "next_k hs (st ?m) (- 1)"] s p
    by (simp add: start_def Let_def)
qed

lemma run_terminates: "\<exists>m. run (fuel_for hs e) pt hs e = Some m \<and> queue m = []"
  using drain_terminates [of e "start pt hs e" hs "fuel_for hs e" pt] start_bound [of hs e pt]
  by (simp add: run_def fuel_for_def)

section \<open>What the functions leave unchanged\<close>

lemma length_await [simp]: "length (promises (await p f m)) = length (promises m)"
  by (simp add: await_def enqueue_def split: option.split pstate.split)

lemma length_resolve [simp]: "length (promises (resolve p m)) = length (promises m)"
  by (simp add: resolve_def split: pstate.split)

lemma st_simps [simp]:
  "tested (enter j g s) = tested s @ [j]"
  "tested (enter_run j g s) = tested s @ [j]"
  "invoked (enter j g s) = invoked s"
  "invoked (enter_run j g s) = invoked s @ [j]"
  "used (enter j g s) = used s"
  "used (enter_run j g s) = used s"
  "tested (respond r s) = tested s"
  "invoked (respond r s) = invoked s"
  "used (respond r s) = used s"
  by (simp_all add: enter_def enter_run_def respond_def)

lemma grows_refl [simp]: "grows m m"
  by (simp add: grows_def)

lemma grows_trans: "grows a b \<Longrightarrow> grows b c \<Longrightarrow> grows a c"
  by (auto simp: grows_def)

lemma grows_ops [simp]:
  "grows m (alloc m)"
  "grows m (await p f m)"
  "grows m (resolve q m)"
  by (simp_all add: grows_def)

lemma grows_step:
  "grows a b \<Longrightarrow> grows b (alloc b)"
  by simp

lemma shape:
  "grows m (snd (call pt hs k m)) \<and>
   (fst (call pt hs k m) = None \<or> fst (call pt hs k m) = Some (length (promises m))) \<and>
   (\<forall>i. k = Step i \<and> handler_at hs (i + 1) \<noteq> None \<and> i \<notin> used (st m)
      \<longrightarrow> i + 1 \<in> set (tested (st (snd (call pt hs k m)))))"
  "grows m (snd (snd (middleware pt hs j g k m))) \<and>
   fst (snd (middleware pt hs j g k m)) = length (promises m) \<and>
   j \<in> set (tested (st (snd (snd (middleware pt hs j g k m)))))"
  "grows m (exec pt hs k as pH m)"
proof (induction pt hs k m and pt hs j g k m and pt hs k as pH m rule: chain_induct)
  case (Noop pt hs m)
  show ?case by simp
next
  case (None pt hs i m)
  then show ?case by (simp add: call_None)
next
  case (Fresh pt hs i g m)
  let ?mw = "middleware pt hs (i + 1) g (next_k hs (st m) (i + 1)) (alloc m)"
  have "grows (alloc m) (snd (snd ?mw))" and t: "i + 1 \<in> set (tested (st (snd (snd ?mw))))"
    using Fresh.IH by simp_all
  then have "grows m (snd (snd ?mw))" using grows_trans [OF grows_ops(1)] by blast
  then have "grows m (await (Some (fst (snd ?mw))) (Closure i (length (promises m))) (snd (snd ?mw)))"
    using grows_trans [OF _ grows_ops(2)] by blast
  then show ?case using t by (simp add: call_fresh [OF Fresh.hyps])
next
  case (Used pt hs i g m)
  let ?c = "call pt hs (next_k hs (st m) (i + 1)) (alloc m)"
  have "grows (alloc m) (snd ?c)" using Used.IH by simp
  then have "grows m (snd ?c)" using grows_trans [OF grows_ops(1)] by blast
  then have "grows m (resolve (length (promises m)) (snd ?c))"
    using grows_trans [OF _ grows_ops(3)] by blast
  then show ?case using Used.hyps by (simp add: call_used [OF Used.hyps])
next
  case (Fail pt hs j g k m)
  then show ?case by (simp add: middleware_fail) (auto simp: grows_def)
next
  case (Pass pt hs j g k m)
  let ?m2 = "(alloc (alloc m))\<lparr>st := enter_run j g (st m)\<rparr>"
  let ?x = "exec pt hs k (g_handler g ((ev (st m))\<lparr>route := g_route g\<rparr>)) (Suc (length (promises m))) ?m2"
  have g: "grows ?m2 ?x" using Pass.IH by simp
  have "grows m ?m2" by (auto simp: grows_def)
  then have "grows m ?x" using g grows_trans by blast
  moreover have "j \<in> set (tested (st ?m2))" by simp
  then have "j \<in> set (tested (st ?x))" using g by (auto simp: grows_def)
  ultimately show ?case
    using grows_trans [OF _ grows_ops(2)] by (simp add: middleware_pass [OF Pass.hyps])
next
  case (Nil pt hs k pH m)
  show ?case by simp
next
  case (Call pt hs k as pH m)
  then show ?case using grows_trans by auto
next
  case (Advance pt hs k as pH m)
  then show ?case using grows_trans [OF _ grows_ops(2)] by (simp add: exec_Advance)
next
  case (Respond pt hs k r as pH m)
  have "grows m (m\<lparr>st := respond r (st m)\<rparr>)" by (simp add: grows_def)
  then show ?case using Respond grows_trans by auto
next
  case (Log pt hs k l as pH m)
  then show ?case by simp
qed

section \<open>No frame waits for ever\<close>

lemma waiters_update:
  assumes "q < length ps"
  shows "(\<Union>p\<in>set (ps[q := v]). waiters p) \<union> waiters (ps ! q) = (\<Union>p\<in>set ps. waiters p) \<union> waiters v"
proof -
  have a: "ps[q := v] = take q ps @ v # drop (Suc q) ps"
    using assms by (rule upd_conv_take_nth_drop)
  have b: "ps = take q ps @ ps ! q # drop (Suc q) ps"
    using assms by (rule id_take_nth_drop)
  have "(\<Union>p\<in>set ps. waiters p) =
      (\<Union>p\<in>set (take q ps). waiters p) \<union> waiters (ps ! q) \<union> (\<Union>p\<in>set (drop (Suc q) ps). waiters p)"
    by (subst b) auto
  moreover have "(\<Union>p\<in>set (ps[q := v]). waiters p) =
      (\<Union>p\<in>set (take q ps). waiters p) \<union> waiters v \<union> (\<Union>p\<in>set (drop (Suc q) ps). waiters p)"
    by (subst a) auto
  ultimately show ?thesis by auto
qed

lemma waiters_add:
  assumes "q < length ps" "ps ! q = Pending fs"
  shows "(\<Union>p\<in>set (ps[q := Pending (fs @ [f])]). waiters p) = insert f (\<Union>p\<in>set ps. waiters p)"
proof -
  have "ps ! q \<in> set ps" using assms(1) by simp
  then have "waiters (ps ! q) \<subseteq> (\<Union>p\<in>set ps. waiters p)" by blast
  then have old: "set fs \<subseteq> (\<Union>p\<in>set ps. waiters p)" using assms(2) by simp
  have "Pending (fs @ [f]) \<in> set (ps[q := Pending (fs @ [f])])"
    using assms(1) by (rule set_update_memI)
  then have "waiters (Pending (fs @ [f])) \<subseteq> (\<Union>p\<in>set (ps[q := Pending (fs @ [f])]). waiters p)"
    by blast
  then have new: "insert f (set fs) \<subseteq> (\<Union>p\<in>set (ps[q := Pending (fs @ [f])]). waiters p)"
    by simp
  have "(\<Union>p\<in>set (ps[q := Pending (fs @ [f])]). waiters p) \<union> set fs =
      (\<Union>p\<in>set ps. waiters p) \<union> insert f (set fs)"
    using waiters_update [OF assms(1), of "Pending (fs @ [f])"] assms(2) by simp
  then show ?thesis using old new by blast
qed

lemma waiting_alloc [simp]: "waiting (alloc m) = waiting m"
  by (simp add: waiting_def alloc_def)

lemma located_alloc [simp]: "located (alloc m) = located m"
  by (simp add: located_def) (simp add: alloc_def)

lemma pending_alloc [simp]: "pending (alloc m) = insert (length (promises m)) (pending m)"
  unfolding pending_def alloc_def by (auto simp: nth_append less_Suc_eq)

lemma ordered_alloc [simp]: "ordered (alloc m) = ordered m"
  unfolding ordered_def alloc_def by (auto simp: nth_append less_Suc_eq)

lemma waiting_st [simp]: "waiting (m\<lparr>st := s\<rparr>) = waiting m"
  by (simp add: waiting_def)

lemma located_st [simp]: "located (m\<lparr>st := s\<rparr>) = located m"
  by (simp add: located_def)

lemma pending_st [simp]: "pending (m\<lparr>st := s\<rparr>) = pending m"
  by (simp add: pending_def)

lemma ordered_st [simp]: "ordered (m\<lparr>st := s\<rparr>) = ordered m"
  by (simp add: ordered_def)

lemma wf_st [simp]: "well_formed A (m\<lparr>st := s\<rparr>) = well_formed A m"
  by (simp add: well_formed_def)

lemma located_enqueue [simp]: "located (enqueue f m) = insert f (located m)"
  by (auto simp: located_def enqueue_def waiting_def)

lemma pending_enqueue [simp]: "pending (enqueue f m) = pending m"
  by (simp add: pending_def enqueue_def)

lemma ordered_enqueue [simp]: "ordered (enqueue f m) = ordered m"
  by (simp add: ordered_def enqueue_def)

lemma located_await [simp]: "located (await p f m) = insert f (located m)"
proof (cases p)
  case None
  then show ?thesis by (simp add: await_def)
next
  case (Some q)
  show ?thesis
  proof (cases "q < length (promises m)")
    case False
    then show ?thesis using Some by (simp add: await_def)
  next
    case True
    show ?thesis
    proof (cases "promises m ! q")
      case Resolved
      then show ?thesis using Some True by (simp add: await_def)
    next
      case (Pending fs)
      have "waiting (m\<lparr>promises := (promises m)[q := Pending (fs @ [f])]\<rparr>) = insert f (waiting m)"
        using waiters_add [OF True Pending] by (simp add: waiting_def)
      then show ?thesis using Some True Pending by (simp add: await_def located_def)
    qed
  qed
qed

lemma pending_await [simp]: "pending (await p f m) = pending m"
proof (cases p)
  case None
  then show ?thesis by (simp add: await_def)
next
  case (Some q)
  show ?thesis
  proof (cases "q < length (promises m)")
    case False
    then show ?thesis using Some by (simp add: await_def)
  next
    case True
    show ?thesis
    proof (cases "promises m ! q")
      case Resolved
      then show ?thesis using Some True by (simp add: await_def)
    next
      case (Pending fs)
      then show ?thesis using Some True
        by (auto simp: await_def pending_def nth_list_update)
    qed
  qed
qed

lemma ordered_await:
  assumes "ordered m" "\<And>q. p = Some q \<Longrightarrow> q \<in> pending m \<Longrightarrow> own f < q"
  shows "ordered (await p f m)"
proof (cases p)
  case None
  then show ?thesis using assms(1) by (simp add: await_def)
next
  case (Some q)
  show ?thesis
  proof (cases "q < length (promises m)")
    case False
    then show ?thesis using Some assms(1) by (simp add: await_def)
  next
    case True
    show ?thesis
    proof (cases "promises m ! q")
      case Resolved
      then show ?thesis using Some True assms(1) by (simp add: await_def)
    next
      case (Pending fs)
      then have "q \<in> pending m" using True by (simp add: pending_def)
      then have "own f < q" using assms(2) Some by simp
      then show ?thesis using Some True Pending assms(1)
        unfolding ordered_def by (auto simp: await_def nth_list_update split: if_splits)
    qed
  qed
qed

lemma located_resolve [simp]: "located (resolve p m) = located m"
proof (cases "p < length (promises m)")
  case False
  then show ?thesis by (simp add: resolve_def)
next
  case True
  show ?thesis
  proof (cases "promises m ! p")
    case Resolved
    then show ?thesis using True by (simp add: resolve_def)
  next
    case (Pending fs)
    have "waiting (m\<lparr>promises := (promises m)[p := Resolved], queue := queue m @ fs\<rparr>) \<union> set fs = waiting m"
      using waiters_update [OF True, of Resolved] Pending
      unfolding waiting_def by simp
    then show ?thesis using True Pending by (auto simp: resolve_def located_def)
  qed
qed

lemma pending_resolve [simp]: "pending (resolve p m) = pending m - {p}"
proof (cases "p < length (promises m)")
  case False
  then show ?thesis by (auto simp: resolve_def pending_def)
next
  case True
  show ?thesis
  proof (cases "promises m ! p")
    case Resolved
    then show ?thesis using True by (auto simp: resolve_def pending_def)
  next
    case (Pending fs)
    then show ?thesis using True by (auto simp: resolve_def pending_def nth_list_update)
  qed
qed

lemma ordered_resolve: "ordered m \<Longrightarrow> ordered (resolve p m)"
proof (cases "p < length (promises m)")
  case False
  then show "ordered m \<Longrightarrow> ordered (resolve p m)" by (simp add: resolve_def)
next
  case True
  assume o: "ordered m"
  show "ordered (resolve p m)"
  proof (cases "promises m ! p")
    case Resolved
    then show ?thesis using True o by (simp add: resolve_def)
  next
    case (Pending fs)
    then show ?thesis using True o
      unfolding ordered_def by (auto simp: resolve_def nth_list_update split: if_splits)
  qed
qed

lemma wf_alloc: "well_formed A m \<Longrightarrow> well_formed (insert (length (promises m)) A) (alloc m)"
  unfolding well_formed_def by (auto simp: less_Suc_eq)

lemma wf_await:
  assumes "well_formed (insert (own f) A) m" "\<And>q. p = Some q \<Longrightarrow> q \<in> pending m \<Longrightarrow> own f < q"
  shows "well_formed A (await p f m)"
proof -
  have "ordered (await p f m)" using assms by (intro ordered_await) (auto simp: well_formed_def)
  then show ?thesis using assms(1) unfolding well_formed_def by auto
qed

lemma wf_resolve: "well_formed (insert p A) m \<Longrightarrow> well_formed A (resolve p m)"
  unfolding well_formed_def by (auto simp: ordered_resolve)

lemma wf_owner: "well_formed (insert p A) m \<Longrightarrow> p < length (promises m)"
  by (simp add: well_formed_def)

lemma wf_contract:
  "\<forall>A. well_formed A m \<longrightarrow> well_formed A (snd (call pt hs k m))"
  "\<forall>A. well_formed A m \<longrightarrow> well_formed A (snd (snd (middleware pt hs j g k m)))"
  "\<forall>A. well_formed (insert pH A) m \<longrightarrow> well_formed A (exec pt hs k as pH m)"
proof (induction pt hs k m and pt hs j g k m and pt hs k as pH m rule: chain_induct)
  case (Noop pt hs m)
  show ?case by simp
next
  case (None pt hs i m)
  then show ?case by (simp add: call_None)
next
  case (Fresh pt hs i g m)
  let ?mw = "middleware pt hs (i + 1) g (next_k hs (st m) (i + 1)) (alloc m)"
  show ?case
  proof (intro allI impI)
    fix A assume "well_formed A m"
    then have "well_formed (insert (length (promises m)) A) (alloc m)" by (rule wf_alloc)
    then have w: "well_formed (insert (length (promises m)) A) (snd (snd ?mw))" using Fresh.IH by blast
    have "fst (snd ?mw) = Suc (length (promises m))" using shape(2) [of "alloc m" pt hs] by simp
    then have "well_formed A (await (Some (fst (snd ?mw))) (Closure i (length (promises m))) (snd (snd ?mw)))"
      using w by (intro wf_await) simp_all
    then show "well_formed A (snd (call pt hs (Step i) m))" by (simp add: call_fresh [OF Fresh.hyps])
  qed
next
  case (Used pt hs i g m)
  show ?case
  proof (intro allI impI)
    fix A assume "well_formed A m"
    then have "well_formed (insert (length (promises m)) A) (alloc m)" by (rule wf_alloc)
    then have "well_formed (insert (length (promises m)) A) (snd (call pt hs (next_k hs (st m) (i + 1)) (alloc m)))"
      using Used.IH by blast
    then show "well_formed A (snd (call pt hs (Step i) m))"
      by (simp add: call_used [OF Used.hyps] wf_resolve)
  qed
next
  case (Fail pt hs j g k m)
  show ?case
  proof (intro allI impI)
    fix A assume "well_formed A m"
    then have "well_formed (insert (length (promises m)) A) (alloc m)" by (rule wf_alloc)
    then show "well_formed A (snd (snd (middleware pt hs j g k m)))"
      by (simp add: middleware_fail [OF Fail.hyps] wf_resolve)
  qed
next
  case (Pass pt hs j g k m)
  let ?pG = "length (promises m)"
  let ?m2 = "(alloc (alloc m))\<lparr>st := enter_run j g (st m)\<rparr>"
  show ?case
  proof (intro allI impI)
    fix A assume "well_formed A m"
    then have "well_formed (insert ?pG A) (alloc m)" by (rule wf_alloc)
    then have "well_formed (insert (Suc ?pG) (insert ?pG A)) (alloc (alloc m))"
      using wf_alloc [of "insert ?pG A" "alloc m"] by simp
    then have "well_formed (insert (Suc ?pG) (insert ?pG A)) ?m2" by simp
    then have "well_formed (insert ?pG A) (exec pt hs k (g_handler g ((ev (st m))\<lparr>route := g_route g\<rparr>)) (Suc ?pG) ?m2)"
      using Pass.IH by blast
    then show "well_formed A (snd (snd (middleware pt hs j g k m)))"
      by (simp add: middleware_pass [OF Pass.hyps]) (intro wf_await, simp_all)
  qed
next
  case (Nil pt hs k pH m)
  show ?case by (simp add: wf_resolve)
next
  case (Call pt hs k as pH m)
  then show ?case by simp
next
  case (Advance pt hs k as pH m)
  show ?case
  proof (intro allI impI)
    fix A assume w: "well_formed (insert pH A) m"
    then have w1: "well_formed (insert pH A) (snd (call pt hs k m))" using Advance.IH by blast
    have lt: "pH < length (promises m)" using w by (rule wf_owner)
    have "fst (call pt hs k m) = None \<or> fst (call pt hs k m) = Some (length (promises m))"
      using shape(1) [of m pt hs k] by blast
    then have "\<And>q. fst (call pt hs k m) = Some q \<Longrightarrow> pH < q" using lt by auto
    then have "well_formed A (await (fst (call pt hs k m)) (Handler k as pH) (snd (call pt hs k m)))"
      using w1 by (intro wf_await) simp_all
    then show "well_formed A (exec pt hs k (Advance # as) pH m)" by (simp add: exec_Advance)
  qed
next
  case (Respond pt hs k r as pH m)
  then show ?case by simp
next
  case (Log pt hs k l as pH m)
  then show ?case by simp
qed

lemma wf_pop:
  assumes "queue m = f # q" "well_formed {} m"
  shows "well_formed {own f} (m\<lparr>queue := q\<rparr>)"
proof -
  have "located m = insert f (located (m\<lparr>queue := q\<rparr>))"
    using assms(1) by (auto simp: located_def waiting_def)
  moreover have "pending (m\<lparr>queue := q\<rparr>) = pending m" by (simp add: pending_def)
  moreover have "ordered (m\<lparr>queue := q\<rparr>) = ordered m" by (simp add: ordered_def)
  ultimately show ?thesis using assms(2) unfolding well_formed_def by auto
qed

lemma wf_resume:
  assumes "well_formed {own f} m"
  shows "well_formed {} (resume pt hs f m)"
proof (cases f)
  case (Closure i pA)
  let ?m1 = "m\<lparr>st := (st m)\<lparr>used := insert i (used (st m))\<rparr>\<rparr>"
  have "well_formed {pA} ?m1" using assms Closure by simp
  then have "well_formed {pA} (snd (call pt hs (next_k hs (st ?m1) (i + 1)) ?m1))"
    using wf_contract(1) by blast
  then show ?thesis using Closure by (simp add: resume_def Let_def wf_resolve)
next
  case (Wrapper pG)
  then show ?thesis using assms by (simp add: resume_def wf_resolve)
next
  case (Handler k as pH)
  then show ?thesis using assms wf_contract(3) [of pH m pt hs k as] by (simp add: resume_def)
qed

lemma wf_start: "well_formed {} (start pt hs e)"
proof -
  have "well_formed {} \<lparr>st = init_state e, promises = [], queue = []\<rparr>"
    by (simp add: well_formed_def pending_def ordered_def located_def waiting_def)
  then show ?thesis using wf_contract(1) by (simp add: start_def Let_def)
qed

lemma wf_drain:
  "well_formed {} m \<Longrightarrow> drain fuel pt hs m = Some m' \<Longrightarrow> well_formed {} m'"
proof (induction fuel arbitrary: m)
  case 0
  then show ?case by simp
next
  case (Suc n)
  show ?case
  proof (cases "queue m")
    case Nil
    then show ?thesis using Suc.prems by simp
  next
    case (Cons f q)
    have "well_formed {} (resume pt hs f (m\<lparr>queue := q\<rparr>))"
      using wf_pop [OF Cons Suc.prems(1)] by (rule wf_resume)
    then show ?thesis using Suc.IH Suc.prems(2) Cons by simp
  qed
qed

lemma wf_final:
  assumes "well_formed {} m" "queue m = []"
  shows "located m = {}"
proof -
  have w: "located m = waiting m" using assms(2) by (simp add: located_def)
  have fin: "finite (pending m)" by (simp add: pending_def)
  have none: "pending m = {}"
  proof (rule ccontr)
    assume ne: "pending m \<noteq> {}"
    define q where "q = Max (pending m)"
    have qin: "q \<in> pending m" unfolding q_def using fin ne by (rule Max_in)
    then obtain f where f: "f \<in> waiting m" "own f = q"
      using assms(1) w unfolding well_formed_def by auto
    then obtain p where p: "p \<in> set (promises m)" "f \<in> waiters p"
      unfolding waiting_def by auto
    then obtain q' where q': "q' < length (promises m)" "promises m ! q' = p"
      by (auto simp: in_set_conv_nth)
    obtain fs where fs: "p = Pending fs" "f \<in> set fs" using p(2) by (cases p) auto
    have "own f < q'" using assms(1) q' fs unfolding well_formed_def ordered_def by blast
    moreover have "q' \<in> pending m" using q' fs by (simp add: pending_def)
    then have "q' \<le> q" unfolding q_def using fin by (intro Max_ge)
    ultimately show False using f(2) by simp
  qed
  have "waiting m = {}"
  proof (rule ccontr)
    assume "waiting m \<noteq> {}"
    then obtain f p where p: "p \<in> set (promises m)" "f \<in> waiters p"
      unfolding waiting_def by auto
    then obtain q' where q': "q' < length (promises m)" "promises m ! q' = p"
      by (auto simp: in_set_conv_nth)
    have "p \<noteq> Resolved" using p(2) by auto
    then have "q' \<in> pending m" using q' by (simp add: pending_def)
    then show False using none by simp
  qed
  then show ?thesis using w by simp
qed

section \<open>Every position is tested\<close>

lemma live_closure: "live hs X m \<Longrightarrow> Closure i pA \<in> located m \<Longrightarrow> i + 1 \<in> set (tested (st m))"
  unfolding live_def by (elim conjE allE [of _ i] allE [of _ pA] impE) assumption+

lemma live_alloc [simp]: "live hs X (alloc m) = live hs X m"
  by (simp add: live_def)

lemma live_resolve [simp]: "live hs X (resolve p m) = live hs X m"
  by (simp add: live_def)

lemma live_await_closure:
  assumes "live hs (insert (i + 1) X) m" "i + 1 \<in> set (tested (st m))"
  shows "live hs X (await p (Closure i pA) m)"
  unfolding live_def
proof (intro conjI ballI allI impI)
  fix j assume j: "j \<in> set (tested (st (await p (Closure i pA) m)))"
  show "j \<in> X \<or> (\<exists>pA'. Closure (j - 1) pA' \<in> located (await p (Closure i pA) m)) \<or>
         (j - 1 \<in> used (st (await p (Closure i pA) m)) \<and>
          (handler_at hs (j + 1) \<noteq> None \<longrightarrow> j + 1 \<in> set (tested (st (await p (Closure i pA) m)))))"
  proof (cases "j = i + 1")
    case True
    then have "Closure (j - 1) pA \<in> located (await p (Closure i pA) m)" by simp
    then show ?thesis by blast
  next
    case False
    then show ?thesis using assms(1) j unfolding live_def by auto
  qed
next
  fix i' assume "i' \<in> used (st (await p (Closure i pA) m))"
  then show "i' + 1 \<in> set (tested (st (await p (Closure i pA) m)))"
    using assms(1) unfolding live_def by simp
next
  fix i' pA' assume "Closure i' pA' \<in> located (await p (Closure i pA) m)"
  then show "i' + 1 \<in> set (tested (st (await p (Closure i pA) m)))"
    using assms unfolding live_def by auto
qed

lemma live_await_wrapper: "live hs X m \<Longrightarrow> live hs X (await p (Wrapper pG) m)"
  unfolding live_def by auto

lemma live_await_handler: "live hs X m \<Longrightarrow> live hs X (await p (Handler k as pH) m)"
  unfolding live_def by auto

lemma live_enter: "live hs X m \<Longrightarrow> live hs (insert j X) (m\<lparr>st := enter j g (st m)\<rparr>)"
  unfolding live_def by auto

lemma live_enter_run: "live hs X m \<Longrightarrow> live hs (insert j X) (m\<lparr>st := enter_run j g (st m)\<rparr>)"
  unfolding live_def by auto

lemma live_respond: "live hs X m \<Longrightarrow> live hs X (m\<lparr>st := respond r (st m)\<rparr>)"
  unfolding live_def by auto

lemma live_contract:
  "\<forall>X. live hs X m \<longrightarrow> live hs X (snd (call pt hs k m))"
  "\<forall>X. live hs X m \<longrightarrow> live hs (insert j X) (snd (snd (middleware pt hs j g k m)))"
  "\<forall>X. live hs X m \<longrightarrow> live hs X (exec pt hs k as pH m)"
proof (induction pt hs k m and pt hs j g k m and pt hs k as pH m rule: chain_induct)
  case (Noop pt hs m)
  show ?case by simp
next
  case (None pt hs i m)
  then show ?case by (simp add: call_None)
next
  case (Fresh pt hs i g m)
  let ?mw = "middleware pt hs (i + 1) g (next_k hs (st m) (i + 1)) (alloc m)"
  show ?case
  proof (intro allI impI)
    fix X assume "live hs X m"
    then have "live hs (insert (i + 1) X) (snd (snd ?mw))" using Fresh.IH by simp
    moreover have "i + 1 \<in> set (tested (st (snd (snd ?mw))))"
      using shape(2) [of "alloc m" pt hs "i + 1"] by blast
    ultimately show "live hs X (snd (call pt hs (Step i) m))"
      by (simp add: call_fresh [OF Fresh.hyps] live_await_closure)
  qed
next
  case (Used pt hs i g m)
  then show ?case by (simp add: call_used [OF Used.hyps])
next
  case (Fail pt hs j g k m)
  show ?case
  proof (intro allI impI)
    fix X assume "live hs X m"
    then have "live hs (insert j X) ((alloc m)\<lparr>st := enter j g (st m)\<rparr>)"
      using live_enter [of hs X "alloc m" j g] by simp
    then show "live hs (insert j X) (snd (snd (middleware pt hs j g k m)))"
      by (simp add: middleware_fail [OF Fail.hyps])
  qed
next
  case (Pass pt hs j g k m)
  show ?case
  proof (intro allI impI)
    fix X assume "live hs X m"
    then have "live hs (insert j X) ((alloc (alloc m))\<lparr>st := enter_run j g (st m)\<rparr>)"
      using live_enter_run [of hs X "alloc (alloc m)" j g] by simp
    then show "live hs (insert j X) (snd (snd (middleware pt hs j g k m)))"
      using Pass.IH by (simp add: middleware_pass [OF Pass.hyps] live_await_wrapper)
  qed
next
  case (Nil pt hs k pH m)
  show ?case by simp
next
  case (Call pt hs k as pH m)
  then show ?case by simp
next
  case (Advance pt hs k as pH m)
  then show ?case by (simp add: exec_Advance live_await_handler)
next
  case (Respond pt hs k r as pH m)
  then show ?case by (simp add: live_respond)
next
  case (Log pt hs k l as pH m)
  then show ?case by simp
qed

lemma live_pop:
  assumes "queue m = f # q" "live hs {} m"
  shows "live hs (reopened f) (m\<lparr>queue := q\<rparr>) \<and> reopened f \<subseteq> set (tested (st m))"
proof -
  have l: "located m = insert f (located (m\<lparr>queue := q\<rparr>))"
    using assms(1) by (auto simp: located_def waiting_def)
  have "f \<in> located m" using l by simp
  then have t: "reopened f \<subseteq> set (tested (st m))"
  proof (cases f)
    case (Closure i pA)
    assume "f \<in> located m"
    then have "i + 1 \<in> set (tested (st m))"
      using assms(2) Closure by (intro live_closure) auto
    then show ?thesis using Closure by simp
  qed simp_all
  have "live hs (reopened f) (m\<lparr>queue := q\<rparr>)"
    unfolding live_def
  proof (intro conjI ballI allI impI)
    fix j assume j: "j \<in> set (tested (st (m\<lparr>queue := q\<rparr>)))"
    then have "(\<exists>pA. Closure (j - 1) pA \<in> located m) \<or>
         (j - 1 \<in> used (st m) \<and> (handler_at hs (j + 1) \<noteq> None \<longrightarrow> j + 1 \<in> set (tested (st m))))"
      using assms(2) unfolding live_def by simp
    then show "j \<in> reopened f \<or> (\<exists>pA. Closure (j - 1) pA \<in> located (m\<lparr>queue := q\<rparr>)) \<or>
         (j - 1 \<in> used (st (m\<lparr>queue := q\<rparr>)) \<and>
          (handler_at hs (j + 1) \<noteq> None \<longrightarrow> j + 1 \<in> set (tested (st (m\<lparr>queue := q\<rparr>)))))"
      unfolding l by (cases f) auto
  next
    fix i assume "i \<in> used (st (m\<lparr>queue := q\<rparr>))"
    then show "i + 1 \<in> set (tested (st (m\<lparr>queue := q\<rparr>)))"
      using assms(2) unfolding live_def by simp
  next
    fix i pA assume "Closure i pA \<in> located (m\<lparr>queue := q\<rparr>)"
    then have "Closure i pA \<in> located m" using l by simp
    then have "i + 1 \<in> set (tested (st m))" using assms(2) live_closure by blast
    then show "i + 1 \<in> set (tested (st (m\<lparr>queue := q\<rparr>)))" by simp
  qed
  then show ?thesis using t by simp
qed

lemma live_resume:
  assumes "live hs (reopened f) m" "reopened f \<subseteq> set (tested (st m))"
  shows "live hs {} (resume pt hs f m)"
proof (cases f)
  case (Closure i pA)
  let ?m1 = "m\<lparr>st := (st m)\<lparr>used := insert i (used (st m))\<rparr>\<rparr>"
  let ?k = "next_k hs (st ?m1) (i + 1)"
  let ?m2 = "snd (call pt hs ?k ?m1)"
  have t: "i + 1 \<in> set (tested (st m))" using assms(2) Closure by simp
  have l1: "live hs {i + 1} ?m1"
    using assms(1) t Closure unfolding live_def by auto
  then have l2: "live hs {i + 1} ?m2" using live_contract(1) by blast
  have g: "grows ?m1 ?m2" using shape(1) [of ?m1 pt hs ?k] by blast
  have u: "i \<in> used (st ?m2)" using g by (auto simp: grows_def)
  have nxt: "handler_at hs (i + 1 + 1) \<noteq> None \<longrightarrow> i + 1 + 1 \<in> set (tested (st ?m2))"
  proof
    assume h: "handler_at hs (i + 1 + 1) \<noteq> None"
    show "i + 1 + 1 \<in> set (tested (st ?m2))"
    proof (cases "i + 1 \<in> used (st ?m1)")
      case True
      then have "i + 1 + 1 \<in> set (tested (st ?m1))" using l1 unfolding live_def by blast
      then show ?thesis using g by (auto simp: grows_def)
    next
      case False
      then have "?k = Step (i + 1)" using h by (simp add: next_k_def)
      then show ?thesis using shape(1) [of ?m1 pt hs ?k] h False by auto
    qed
  qed
  have "live hs {} ?m2"
    unfolding live_def
  proof (intro conjI ballI allI impI)
    fix j assume j: "j \<in> set (tested (st ?m2))"
    show "j \<in> {} \<or> (\<exists>pA. Closure (j - 1) pA \<in> located ?m2) \<or>
         (j - 1 \<in> used (st ?m2) \<and> (handler_at hs (j + 1) \<noteq> None \<longrightarrow> j + 1 \<in> set (tested (st ?m2))))"
    proof (cases "j = i + 1")
      case True
      then show ?thesis using u nxt by simp
    next
      case False
      then show ?thesis using l2 j unfolding live_def by blast
    qed
  next
    fix i' assume "i' \<in> used (st ?m2)"
    then show "i' + 1 \<in> set (tested (st ?m2))" using l2 unfolding live_def by blast
  next
    fix i' pA' assume "Closure i' pA' \<in> located ?m2"
    then show "i' + 1 \<in> set (tested (st ?m2))" using l2 unfolding live_def by blast
  qed
  then show ?thesis using Closure by (simp add: resume_def Let_def)
next
  case (Wrapper pG)
  then show ?thesis using assms by (simp add: resume_def)
next
  case (Handler k as pH)
  then show ?thesis using assms live_contract(3) [of hs m pt k as pH] by (simp add: resume_def)
qed

lemma live_start: "live hs {} (start pt hs e)"
proof -
  have "live hs {} \<lparr>st = init_state e, promises = [], queue = []\<rparr>"
    by (simp add: live_def init_state_def located_def waiting_def)
  then show ?thesis using live_contract(1) by (simp add: start_def Let_def)
qed

lemma live_drain:
  "live hs {} m \<Longrightarrow> drain fuel pt hs m = Some m' \<Longrightarrow> live hs {} m' \<and> grows m m'"
proof (induction fuel arbitrary: m)
  case 0
  then show ?case by simp
next
  case (Suc n)
  show ?case
  proof (cases "queue m")
    case Nil
    then show ?thesis using Suc.prems by simp
  next
    case (Cons f q)
    let ?m = "resume pt hs f (m\<lparr>queue := q\<rparr>)"
    have p: "live hs (reopened f) (m\<lparr>queue := q\<rparr>)" "reopened f \<subseteq> set (tested (st (m\<lparr>queue := q\<rparr>)))"
      using live_pop [OF Cons Suc.prems(1)] by simp_all
    then have "live hs {} ?m" by (rule live_resume)
    moreover have "drain n pt hs ?m = Some m'" using Suc.prems(2) Cons by simp
    ultimately have r: "live hs {} m'" "grows ?m m'" using Suc.IH by blast+
    have "grows (m\<lparr>queue := q\<rparr>) ?m"
    proof (cases f)
      case (Closure i pA)
      let ?m1 = "m\<lparr>queue := q, st := (st m)\<lparr>used := insert i (used (st m))\<rparr>\<rparr>"
      have "grows ?m1 (snd (call pt hs (next_k hs (st ?m1) (i + 1)) ?m1))"
        using shape(1) by blast
      moreover have "grows (m\<lparr>queue := q\<rparr>) ?m1" by (auto simp: grows_def)
      ultimately have "grows (m\<lparr>queue := q\<rparr>) (snd (call pt hs (next_k hs (st ?m1) (i + 1)) ?m1))"
        using grows_trans by blast
      then have "grows (m\<lparr>queue := q\<rparr>) (resolve pA (snd (call pt hs (next_k hs (st ?m1) (i + 1)) ?m1)))"
        using grows_trans [OF _ grows_ops(3)] by blast
      then show ?thesis using Closure by (simp add: resume_def Let_def)
    next
      case (Wrapper pG)
      then show ?thesis by (simp add: resume_def)
    next
      case (Handler k as pH)
      then show ?thesis using shape(3) by (simp add: resume_def)
    qed
    moreover have "grows m (m\<lparr>queue := q\<rparr>)" by (simp add: grows_def)
    ultimately show ?thesis using r grows_trans by blast
  qed
qed

section \<open>What the logs hold\<close>

lemma passes_same: "href e' = href e \<Longrightarrow> e_method e' = e_method e \<Longrightarrow> passes pt g e' = passes pt g e"
  by (simp add: passes_def isMethodPassed_def)

lemma logs_enter:
  assumes "logs_ok pt hs e s" "handler_at hs j = Some g" "\<not> passes pt g (ev s)"
  shows "logs_ok pt hs e (enter j g s)"
proof -
  have "passes pt g (ev s) = passes pt g e"
    using assms(1) by (intro passes_same) (simp_all add: logs_ok_def)
  then have np: "\<not> passes pt g e" using assms(3) by simp
  then have "j \<notin> set (invoked s)" using assms(1,2) unfolding logs_ok_def by auto
  then show ?thesis using assms(1,2) np unfolding logs_ok_def by auto
qed

lemma logs_enter_run:
  assumes "logs_ok pt hs e s" "handler_at hs j = Some g" "passes pt g (ev s)"
  shows "logs_ok pt hs e (enter_run j g s)"
proof -
  have "passes pt g (ev s) = passes pt g e"
    using assms(1) by (intro passes_same) (simp_all add: logs_ok_def)
  then have "passes pt g e" using assms(3) by simp
  then show ?thesis using assms(1,2) unfolding logs_ok_def by auto
qed

lemma logs_respond: "logs_ok pt hs e s \<Longrightarrow> logs_ok pt hs e (respond r s)"
  by (simp add: logs_ok_def)

lemma logs_used: "logs_ok pt hs e (s\<lparr>used := u\<rparr>) = logs_ok pt hs e s"
  by (simp add: logs_ok_def)

lemma logs_contract:
  "logs_ok pt hs e (st m) \<longrightarrow> logs_ok pt hs e (st (snd (call pt hs k m)))"
  "handler_at hs j = Some g \<longrightarrow> logs_ok pt hs e (st m) \<longrightarrow>
     logs_ok pt hs e (st (snd (snd (middleware pt hs j g k m))))"
  "logs_ok pt hs e (st m) \<longrightarrow> logs_ok pt hs e (st (exec pt hs k as pH m))"
proof (induction pt hs k m and pt hs j g k m and pt hs k as pH m rule: chain_induct)
  case (Noop pt hs m)
  show ?case by simp
next
  case (None pt hs i m)
  then show ?case by (simp add: call_None)
next
  case (Fresh pt hs i g m)
  then show ?case by (simp add: call_fresh [OF Fresh.hyps])
next
  case (Used pt hs i g m)
  then show ?case by (simp add: call_used [OF Used.hyps])
next
  case (Fail pt hs j g k m)
  then show ?case by (simp add: middleware_fail logs_enter)
next
  case (Pass pt hs j g k m)
  then show ?case by (simp add: middleware_pass logs_enter_run)
next
  case (Nil pt hs k pH m)
  show ?case by simp
next
  case (Call pt hs k as pH m)
  then show ?case by simp
next
  case (Advance pt hs k as pH m)
  then show ?case by (simp add: exec_Advance)
next
  case (Respond pt hs k r as pH m)
  then show ?case by (simp add: logs_respond)
next
  case (Log pt hs k l as pH m)
  then show ?case by simp
qed

lemma logs_resume: "logs_ok pt hs e (st m) \<Longrightarrow> logs_ok pt hs e (st (resume pt hs f m))"
proof (cases f)
  case (Closure i pA)
  assume "logs_ok pt hs e (st m)"
  then have "logs_ok pt hs e (st (m\<lparr>st := (st m)\<lparr>used := insert i (used (st m))\<rparr>\<rparr>))"
    by (simp add: logs_used)
  then show ?thesis using Closure logs_contract(1) by (simp add: resume_def Let_def)
next
  case (Wrapper pG)
  assume "logs_ok pt hs e (st m)"
  then show ?thesis using Wrapper by (simp add: resume_def)
next
  case (Handler k as pH)
  assume "logs_ok pt hs e (st m)"
  then show ?thesis using Handler logs_contract(3) by (simp add: resume_def)
qed

lemma logs_drain:
  "logs_ok pt hs e (st m) \<Longrightarrow> drain fuel pt hs m = Some m' \<Longrightarrow> logs_ok pt hs e (st m')"
proof (induction fuel arbitrary: m)
  case 0
  then show ?case by simp
next
  case (Suc n)
  show ?case
  proof (cases "queue m")
    case Nil
    then show ?thesis using Suc.prems by simp
  next
    case (Cons f q)
    have "logs_ok pt hs e (st (resume pt hs f (m\<lparr>queue := q\<rparr>)))"
      using Suc.prems(1) by (intro logs_resume) simp
    then show ?thesis using Suc.IH Suc.prems(2) Cons by simp
  qed
qed

lemma logs_start: "logs_ok pt hs e (st (start pt hs e))"
proof -
  have "logs_ok pt hs e (st \<lparr>st = init_state e, promises = [], queue = []\<rparr>)"
    by (simp add: logs_ok_def init_state_def)
  then show ?thesis using logs_contract(1) by (simp add: start_def Let_def)
qed

lemma start_tests_first:
  assumes "hs \<noteq> []"
  shows "0 \<in> set (tested (st (start pt hs e)))"
proof -
  let ?m = "\<lparr>st = init_state e, promises = [], queue = []\<rparr>"
  have h: "handler_at hs (- 1 + 1) \<noteq> None" using assms by (simp add: handler_at_def)
  then have k: "next_k hs (init_state e) (- 1) = Step (- 1)" by (simp add: next_k_def init_state_def)
  have "- 1 \<notin> used (st ?m)" by (simp add: init_state_def)
  then have "- 1 + 1 \<in> set (tested (st (snd (call pt hs (Step (- 1)) ?m))))"
    using shape(1) [of ?m pt hs "Step (- 1)"] h by blast
  then show ?thesis by (simp add: start_def Let_def k)
qed

lemma all_tested:
  assumes "live hs {} m" "located m = {}" "0 \<in> set (tested (st m))" "j < length hs"
  shows "int j \<in> set (tested (st m))"
  using assms(4)
proof (induction j)
  case 0
  show ?case using assms(3) by simp
next
  case (Suc j)
  then have "int j \<in> set (tested (st m))" by simp
  then have "handler_at hs (int j + 1) \<noteq> None \<longrightarrow> int j + 1 \<in> set (tested (st m))"
    using assms(1,2) unfolding live_def by blast
  moreover have "handler_at hs (int j + 1) \<noteq> None" using Suc.prems by (simp add: handler_at_def)
  ultimately show ?case by (simp add: add.commute)
qed

lemma final_state:
  obtains m :: machine where "run (fuel_for hs e) pt hs e = Some m" "final pt hs e = st m"
    "queue m = []" "located m = {}" "live hs {} m" "logs_ok pt hs e (st m)"
    "hs \<noteq> [] \<longrightarrow> 0 \<in> set (tested (st m))"
proof -
  obtain m where m: "run (fuel_for hs e) pt hs e = Some m" "queue m = []"
    using run_terminates by blast
  then have d: "drain (fuel_for hs e) pt hs (start pt hs e) = Some m" by (simp add: run_def)
  have w: "well_formed {} m" using wf_drain [OF wf_start d] .
  have l: "live hs {} m" "grows (start pt hs e) m" using live_drain [OF live_start d] by blast+
  have "hs \<noteq> [] \<longrightarrow> 0 \<in> set (tested (st m))"
    using start_tests_first [of hs pt e] l(2) by (auto simp: grows_def)
  moreover have "logs_ok pt hs e (st m)" using logs_drain [OF logs_start d] .
  moreover have "located m = {}" using wf_final [OF w m(2)] .
  moreover have "final pt hs e = st m" using m(1) by (simp add: final_def)
  ultimately show ?thesis using that m l(1) by blast
qed

lemma final_tested: "set (tested (final pt hs e)) = {j. 0 \<le> j \<and> j < int (length hs)}"
proof -
  obtain m :: machine where m: "final pt hs e = st m" "located m = {}" "live hs {} m"
    "logs_ok pt hs e (st m)" "hs \<noteq> [] \<longrightarrow> 0 \<in> set (tested (st m))"
    using final_state [of hs e pt] by blast
  have "set (tested (st m)) \<subseteq> {j. 0 \<le> j \<and> j < int (length hs)}"
    using m(4) unfolding logs_ok_def by (auto simp: handler_at_def split: if_splits)
  moreover have "{j. 0 \<le> j \<and> j < int (length hs)} \<subseteq> set (tested (st m))"
  proof
    fix j assume "j \<in> {j. 0 \<le> j \<and> j < int (length hs)}"
    then have j: "0 \<le> j" "nat j < length hs" by auto
    then have "hs \<noteq> []" by auto
    then have "int (nat j) \<in> set (tested (st m))"
      using all_tested [OF m(3) m(2) _ j(2)] m(5) by simp
    then show "j \<in> set (tested (st m))" using j(1) by simp
  qed
  ultimately show ?thesis using m(1) by simp
qed

lemma final_invoked:
  "set (invoked (final pt hs e)) = {j. 0 \<le> j \<and> j < int (length hs) \<and> passes pt (hs ! nat j) e}"
proof -
  obtain m :: machine where m: "final pt hs e = st m" "logs_ok pt hs e (st m)"
    using final_state [of hs e pt] by blast
  have "\<And>j. j \<in> set (invoked (st m)) \<longleftrightarrow>
      j \<in> set (tested (st m)) \<and> (\<exists>g. handler_at hs j = Some g \<and> passes pt g e)"
    using m(2) unfolding logs_ok_def by blast
  then show ?thesis
    using final_tested [of pt hs e] unfolding m(1)
    by (auto simp: handler_at_def split: if_splits)
qed

lemma final_route:
  "route (ev (final pt hs e)) =
     (if hs = [] then route e else g_route (hs ! nat (last (tested (final pt hs e)))))"
proof -
  obtain m :: machine where m: "final pt hs e = st m" "logs_ok pt hs e (st m)"
    using final_state [of hs e pt] by blast
  show ?thesis
  proof (cases "hs = []")
    case True
    then have "set (tested (st m)) = {}" using final_tested [of pt hs e] m(1) by simp
    then show ?thesis using m True unfolding logs_ok_def by simp
  next
    case False
    then have "0 \<in> set (tested (st m))" using final_tested [of pt hs e] m(1) by simp
    then have "tested (st m) \<noteq> []" by auto
    then show ?thesis using m False unfolding logs_ok_def
      by (auto simp: handler_at_def split: if_splits)
  qed
qed

section \<open>Positions are tested in order\<close>






lemma ord_alloc [simp]: "ord (alloc m) = ord m"
  by (simp add: ord_def)

lemma ord_resolve [simp]: "ord (resolve p m) = ord m"
  by (simp add: ord_def)











section \<open>At most one response\<close>


lemma at_most_one_upd [simp]:
  "at_most_one (s\<lparr>used := u\<rparr>) = at_most_one s"
  "at_most_one (enter j g s) = at_most_one s"
  "at_most_one (enter_run j g s) = at_most_one s"
  by (simp_all add: at_most_one_def enter_def enter_run_def)





lemma final_is_run:
  "\<exists>m. run (fuel_for hs e) pt hs e = Some m \<and> queue m = [] \<and> final pt hs e = st m"
proof -
  obtain m :: machine where "run (fuel_for hs e) pt hs e = Some m" "final pt hs e = st m" "queue m = []"
    using final_state [of hs e pt] by blast
  then show ?thesis by blast
qed

lemma drain_more: "drain n pt hs m = Some m' \<Longrightarrow> drain (n + k) pt hs m = Some m'"
proof (induction n arbitrary: m)
  case 0
  then show ?case by simp
next
  case (Suc n)
  then show ?case by (cases "queue m") simp_all
qed

section \<open>Responses\<close>



section \<open>Registration order\<close>









lemma upto_0_1: "[0..1::int] = [0, 1]"
  by (simp add: upto_rec1)



lemma hello_path: "url_pathname ''http://localhost:8080/hello'' = ''/hello''"
  by (simp add: url_pathname_def)

section \<open>Splitting a path\<close>

lemma split_on_length: "length (split_on c s) = Suc (length (filter (\<lambda>x. x = c) s))"
proof (induction s)
  case Nil
  show ?case by simp
next
  case (Cons x xs)
  then show ?case by (cases "split_on c xs") auto
qed

lemma split_on_nonempty: "split_on c s \<noteq> []"
  using split_on_length [of c s] by auto

lemma split_on_absent: "c \<notin> set s \<Longrightarrow> split_on c s = [s]"
  by (induction s) auto

lemma last_split_on_append: "last (split_on c (a @ c # b)) = last (split_on c b)"
proof (induction a)
  case Nil
  show ?case by (simp add: split_on_nonempty)
next
  case (Cons x a)
  show ?case
  proof (cases "x = c")
    case True
    then show ?thesis using Cons by (simp add: split_on_nonempty)
  next
    case False
    obtain y ys where s: "split_on c (a @ c # b) = y # ys"
      using split_on_nonempty [of c "a @ c # b"] by (cases "split_on c (a @ c # b)") auto
    have "length (split_on c (a @ c # b)) \<ge> 2" by (simp add: split_on_length)
    then have "ys \<noteq> []" using s by auto
    then show ?thesis using Cons s False by simp
  qed
qed

lemma key_of_segment:
  assumes "CHR ''/'' \<notin> set seg"
  shows "content_type_key (dir @ CHR ''/'' # seg) = last (split_on CHR ''.'' seg)"
proof -
  have "last (split_on CHR ''/'' (dir @ CHR ''/'' # seg)) = seg"
    using assms by (simp add: last_split_on_append split_on_absent)
  then show ?thesis
    by (simp add: content_type_key_def at_last_def split_on_nonempty)
qed

section \<open>Claims\<close>

text \<open>
  C1.  In a chain of three guarded handlers that all match the request, where the middle
  handler never calls its continuation, all three inner handlers run; and in any chain
  the run ends and every position has then been tested, whatever the handlers did.
\<close>

theorem three_matching_handlers_all_run:
  "passes pt h1 e \<and> passes pt h2 e \<and> passes pt h3 e \<and>
   (\<forall>e'. Call \<notin> set (g_handler h2 e') \<and> Advance \<notin> set (g_handler h2 e'))
   \<longrightarrow> set (invoked (final pt [h1, h2, h3] e)) = {0, 1, 2} \<and>
       (\<exists>m. run (fuel_for hs e) pt hs e = Some m \<and> queue m = [] \<and> final pt hs e = st m) \<and>
       set (tested (final pt hs e)) = {j. 0 \<le> j \<and> j < int (length hs)}"
proof (intro impI conjI)
  assume a: "passes pt h1 e \<and> passes pt h2 e \<and> passes pt h3 e \<and>
    (\<forall>e'. Call \<notin> set (g_handler h2 e') \<and> Advance \<notin> set (g_handler h2 e'))"
  have "\<And>j. 0 \<le> j \<and> j < 3 \<longleftrightarrow> j = 0 \<or> j = 1 \<or> (j::int) = 2" by auto
  then have "{j. 0 \<le> j \<and> j < int (length [h1, h2, h3]) \<and> passes pt ([h1, h2, h3] ! nat j) e} = {0, 1, 2}"
    using a by auto
  then show "set (invoked (final pt [h1, h2, h3] e)) = {0, 1, 2}"
    by (simp only: final_invoked)
  show "\<exists>m. run (fuel_for hs e) pt hs e = Some m \<and> queue m = [] \<and> final pt hs e = st m"
    by (rule final_is_run)
  show "set (tested (final pt hs e)) = {j. 0 \<le> j \<and> j < int (length hs)}"
    by (rule final_tested)
qed

theorem three_matching_handlers_all_run_witness:
  "passes url_pattern_test (Middleware ''ANY'' ''/*'' awaitsNext) (request_hello ''GET'') \<and>
   passes url_pattern_test (Middleware ''ANY'' ''/*'' logHandler) (request_hello ''GET'') \<and>
   passes url_pattern_test (Middleware ''GET'' ''/hello'' helloHandler) (request_hello ''GET'') \<and>
   (\<forall>e'. Call \<notin> set (g_handler (Middleware ''ANY'' ''/*'' logHandler) e') \<and>
         Advance \<notin> set (g_handler (Middleware ''ANY'' ''/*'' logHandler) e')) \<and>
   set (invoked (final url_pattern_test
     [Middleware ''ANY'' ''/*'' awaitsNext, Middleware ''ANY'' ''/*'' logHandler,
      Middleware ''GET'' ''/hello'' helloHandler] (request_hello ''GET''))) = {0, 1, 2}"
  using three_matching_handlers_all_run [of url_pattern_test
    "Middleware ''ANY'' ''/*'' awaitsNext" "request_hello ''GET''"
    "Middleware ''ANY'' ''/*'' logHandler" "Middleware ''GET'' ''/hello'' helloHandler" "[]"]
  by (simp add: passes_def isMethodPassed_def Middleware_def request_hello_def
      url_pattern_test_def hello_path logHandler_def)

text \<open>
  C2, at an input where the code does not do what the specification says.  The chain has three
  guarded handlers that match every request: the first calls its continuation once and
  does not await it, the second awaits its continuation, the third returns.  The guarded
  handler at position 1 is called twice and its inner handler runs twice.
\<close>

theorem unawaited_call_runs_handler_twice:
  "tested (final url_pattern_test
     [Middleware ''ANY'' ''/*'' callsNext, Middleware ''ANY'' ''/*'' awaitsNext,
      Middleware ''ANY'' ''/*'' returns] (request_hello ''GET'')) = [0, 1, 2, 1] \<and>
   invoked (final url_pattern_test
     [Middleware ''ANY'' ''/*'' callsNext, Middleware ''ANY'' ''/*'' awaitsNext,
      Middleware ''ANY'' ''/*'' returns] (request_hello ''GET'')) = [0, 1, 2, 1]"
  by code_simp

text \<open>
  C3, at two inputs where the code does not do what the specification says.  A handler that calls
  its continuation twice without awaiting makes the next handler run twice; a handler
  that awaits its continuation twice makes the handler two positions on run twice,
  although its own position is in \<open>used\<close> when it calls the second time.
\<close>

theorem second_call_runs_a_handler_again:
  "invoked (final url_pattern_test
     [Middleware ''ANY'' ''/*'' callsTwice, Middleware ''ANY'' ''/*'' returns]
     (request_hello ''GET'')) = [0, 1, 1] \<and>
   invoked (final url_pattern_test
     [Middleware ''ANY'' ''/*'' awaitsTwice, Middleware ''ANY'' ''/*'' returns,
      Middleware ''ANY'' ''/*'' returns] (request_hello ''GET'')) = [0, 1, 2, 2]"
  by code_simp

text \<open>
  C4.  A guarded handler built from a method, a route pattern and an inner handler gives
  true and executes the inner handler exactly when the pattern test succeeds and the method
  equals the event's method or is ANY; otherwise it gives false at once, and apart from the
  route it has set (and the log entry of the test) nothing has happened: the inner handler
  has not run and the continuation has not been called.  Both cases are values, none is an
  error.
\<close>

theorem middleware_matches_iff:
  "middleware pt hs j (Middleware mt rt h) k m =
     (if pt rt (href (ev (st m))) \<and> (mt = e_method (ev (st m)) \<or> mt = ''ANY'')
      then (True, length (promises m),
            await (Some (Suc (length (promises m)))) (Wrapper (length (promises m)))
              (exec pt hs k (h ((ev (st m))\<lparr>route := rt\<rparr>)) (Suc (length (promises m)))
                 ((alloc (alloc m))\<lparr>st := (st m)\<lparr>ev := (ev (st m))\<lparr>route := rt\<rparr>,
                    tested := tested (st m) @ [j], invoked := invoked (st m) @ [j]\<rparr>\<rparr>)))
      else (False, length (promises m),
            resolve (length (promises m))
              ((alloc m)\<lparr>st := (st m)\<lparr>ev := (ev (st m))\<lparr>route := rt\<rparr>,
                 tested := tested (st m) @ [j]\<rparr>\<rparr>)))"
proof (cases "passes pt (Middleware mt rt h) (ev (st m))")
  case True
  then show ?thesis
    using middleware_pass [OF True, of hs j k]
    by (simp add: passes_def isMethodPassed_def Middleware_def enter_run_def)
next
  case False
  then show ?thesis
    using middleware_fail [OF False, of hs j k]
    by (simp add: passes_def isMethodPassed_def Middleware_def enter_def)
qed

text \<open>
  C5.  A guarded handler sets the route of the event to its own pattern before it tests,
  whether the test succeeds or not; when the run of the chain has ended, the route of the
  event is the pattern of the guarded handler that was tested last.
\<close>

theorem route_is_last_tested_pattern:
  "(\<exists>m0. route (ev (st m0)) = g_route g \<and>
      snd (snd (middleware pt hs j g k m)) =
        (if passes pt g (ev (st m))
         then await (Some (Suc (length (promises m)))) (Wrapper (length (promises m)))
                (exec pt hs k (g_handler g (ev (st m0))) (Suc (length (promises m)))
                   (alloc (m0\<lparr>st := (st m0)\<lparr>invoked := invoked (st m0) @ [j]\<rparr>\<rparr>)))
         else resolve (length (promises m)) m0)) \<and>
   route (ev (final pt hs e)) =
     (if hs = [] then route e else g_route (hs ! nat (last (tested (final pt hs e)))))"
proof
  let ?m0 = "(alloc m)\<lparr>st := enter j g (st m)\<rparr>"
  have "route (ev (st ?m0)) = g_route g" by simp
  moreover have "snd (snd (middleware pt hs j g k m)) =
        (if passes pt g (ev (st m))
         then await (Some (Suc (length (promises m)))) (Wrapper (length (promises m)))
                (exec pt hs k (g_handler g (ev (st ?m0))) (Suc (length (promises m)))
                   (alloc (?m0\<lparr>st := (st ?m0)\<lparr>invoked := invoked (st ?m0) @ [j]\<rparr>\<rparr>)))
         else resolve (length (promises m)) ?m0)"
    by (simp add: middleware_pass middleware_fail alloc_st) (simp add: enter_def enter_run_def)
  ultimately show "\<exists>m0. route (ev (st m0)) = g_route g \<and>
      snd (snd (middleware pt hs j g k m)) =
        (if passes pt g (ev (st m))
         then await (Some (Suc (length (promises m)))) (Wrapper (length (promises m)))
                (exec pt hs k (g_handler g (ev (st m0))) (Suc (length (promises m)))
                   (alloc (m0\<lparr>st := (st m0)\<lparr>invoked := invoked (st m0) @ [j]\<rparr>\<rparr>)))
         else resolve (length (promises m)) m0)" by blast
  show "route (ev (final pt hs e)) =
     (if hs = [] then route e else g_route (hs ! nat (last (tested (final pt hs e)))))"
    by (rule final_route)
qed







text \<open>
  C9.  The handler that static registers is a GET middleware on the normalised route.  It
  responds once: with the status 404 and nothing else when reading the file fails, and
  with the bytes of the file and a content-type header when it succeeds.
\<close>

theorem static_handler_responds:
  "static_handler en rt root e =
     [Respond (case fetch en (static_path en rt root (href e)) of
                 None \<Rightarrow> \<lparr>status = Some 404, body = None, headers = []\<rparr>
               | Some bytes \<Rightarrow>
                   \<lparr>status = None, body = Some bytes,
                    headers = [(''content-type'', content_type en (static_path en rt root (href e)))]\<rparr>)] \<and>
   exec pt hs k (static_handler en rt root e) pH m =
     resolve pH (m\<lparr>st := respond (case fetch en (static_path en rt root (href e)) of
                 None \<Rightarrow> \<lparr>status = Some 404, body = None, headers = []\<rparr>
               | Some bytes \<Rightarrow>
                   \<lparr>status = None, body = Some bytes,
                    headers = [(''content-type'', content_type en (static_path en rt root (href e)))]\<rparr>)
              (st m)\<rparr>) \<and>
   s_middleware (static en rt0 root new_server) =
     [Middleware ''GET'' (normalize_route rt0) (static_handler en (normalize_route rt0) root)]"
  by (simp add: static_handler_def not_found_def static_def use_def new_server_def Let_def
      split: option.split)

text \<open>
  C10.  The key of the content-type lookup is what follows the last dot of the last
  segment of the path; when that segment has no dot, the key is the whole segment; the
  content type is the type that the table has for the key, and \<open>text/plain\<close> when the
  table has no entry for the key.
\<close>

theorem content_type_key_is_extension:
  "(CHR ''/'' \<notin> set seg \<and> CHR ''.'' \<notin> set seg \<longrightarrow> content_type_key (dir @ ''/'' @ seg) = seg) \<and>
   (CHR ''/'' \<notin> set (name @ ''.'' @ ext) \<and> CHR ''.'' \<notin> set ext \<longrightarrow>
      content_type_key (dir @ ''/'' @ name @ ''.'' @ ext) = ext) \<and>
   (distinct (map fst (content_types en)) \<and> (content_type_key p, t) \<in> set (content_types en) \<longrightarrow>
      content_type en p = t) \<and>
   (content_type_key q \<notin> fst ` set (content_types en) \<longrightarrow> content_type en q = ''text/plain'')"
proof (intro conjI impI)
  assume "CHR ''/'' \<notin> set seg \<and> CHR ''.'' \<notin> set seg"
  then show "content_type_key (dir @ ''/'' @ seg) = seg"
    by (simp add: key_of_segment split_on_absent)
next
  assume a: "CHR ''/'' \<notin> set (name @ ''.'' @ ext) \<and> CHR ''.'' \<notin> set ext"
  then have "content_type_key (dir @ CHR ''/'' # (name @ CHR ''.'' # ext)) =
      last (split_on CHR ''.'' (name @ CHR ''.'' # ext))"
    by (intro key_of_segment) simp
  moreover have "last (split_on CHR ''.'' (name @ CHR ''.'' # ext)) = ext"
    using a by (simp add: last_split_on_append split_on_absent)
  ultimately show "content_type_key (dir @ ''/'' @ name @ ''.'' @ ext) = ext" by simp
next
  assume "distinct (map fst (content_types en)) \<and> (content_type_key p, t) \<in> set (content_types en)"
  then have "map_of (content_types en) (content_type_key p) = Some t" by simp
  then show "content_type en p = t" by (simp add: content_type_def)
next
  assume "content_type_key q \<notin> fst ` set (content_types en)"
  then have "map_of (content_types en) (content_type_key q) = None"
    by (simp add: map_of_eq_None_iff)
  then show "content_type en q = ''text/plain''" by (simp add: content_type_def)
qed

theorem content_type_key_is_extension_witness:
  "(CHR ''/'' \<notin> set ''LICENSE'' \<and> CHR ''.'' \<notin> set ''LICENSE'') \<and>
   content_type_key (''file:///srv/public'' @ ''/'' @ ''LICENSE'') = ''LICENSE'' \<and>
   (CHR ''/'' \<notin> set (''app.min'' @ ''.'' @ ''js'') \<and> CHR ''.'' \<notin> set ''js'') \<and>
   content_type_key (''file:///srv/public'' @ ''/'' @ ''app.min'' @ ''.'' @ ''js'') = ''js'' \<and>
   (distinct (map fst [(''html'', ''text/html''), (''js'', ''text/javascript'')]) \<and>
    (content_type_key ''file:///srv/public/app.min.js'', ''text/javascript'')
      \<in> set [(''html'', ''text/html''), (''js'', ''text/javascript'')]) \<and>
   content_type \<lparr>cwd = ''/srv'', pathname = url_pathname, fetch = (\<lambda>p. None),
       content_types = [(''html'', ''text/html''), (''js'', ''text/javascript'')]\<rparr>
     ''file:///srv/public/app.min.js'' = ''text/javascript'' \<and>
   content_type_key ''file:///srv/public/LICENSE''
     \<notin> fst ` set [(''html'', ''text/html''), (''js'', ''text/javascript'')] \<and>
   content_type \<lparr>cwd = ''/srv'', pathname = url_pathname, fetch = (\<lambda>p. None),
       content_types = [(''html'', ''text/html''), (''js'', ''text/javascript'')]\<rparr>
     ''file:///srv/public/LICENSE'' = ''text/plain''"
  using content_type_key_is_extension [of "''LICENSE''" "''file:///srv/public''" "''app.min''" "''js''"
    "\<lparr>cwd = ''/srv'', pathname = url_pathname, fetch = (\<lambda>p. None),
       content_types = [(''html'', ''text/html''), (''js'', ''text/javascript'')]\<rparr>"
    "''file:///srv/public/app.min.js''" "''text/javascript''" "''file:///srv/public/LICENSE''"]
  by (simp add: content_type_key_def at_last_def)

end
